theory Spec2Isabelle
  imports Main "HOL-Library.Sublist"
begin

section \<open>Python strings\<close>

text \<open>
  Python strings are modelled as HOL strings: lists of 8-bit characters, read as the code
  points 0..255. On this range the character classes below are those of Python 3:
  \<open>str.lower\<close> moves A-Z and the upper-case letters 192..222 (without 215) up by 32,
  \<open>str.isspace\<close> holds for 9..13, 28..32, 133 and 160, and the regular expression class
  \<open>\w\<close> is the underscore with the alphanumeric code points. Python integers are \<open>int\<close>.
\<close>

definition py_lower_char :: "char \<Rightarrow> char" where
  "py_lower_char c =
     (let n = (of_char c :: nat)
      in if (65 \<le> n \<and> n \<le> 90) \<or> (192 \<le> n \<and> n \<le> 222 \<and> n \<noteq> 215)
         then char_of (n + 32) else c)"

definition py_lower :: "string \<Rightarrow> string" where
  "py_lower s = map py_lower_char s"

definition is_space :: "char \<Rightarrow> bool" where
  "is_space c =
     (let n = (of_char c :: nat)
      in (9 \<le> n \<and> n \<le> 13) \<or> (28 \<le> n \<and> n \<le> 32) \<or> n = 133 \<or> n = 160)"

definition py_strip :: "string \<Rightarrow> string" where
  "py_strip s = rev (dropWhile is_space (rev (dropWhile is_space s)))"

definition is_word :: "char \<Rightarrow> bool" where
  "is_word c =
     (let n = (of_char c :: nat)
      in (48 \<le> n \<and> n \<le> 57) \<or> (65 \<le> n \<and> n \<le> 90) \<or> n = 95 \<or> (97 \<le> n \<and> n \<le> 122) \<or>
         n = 170 \<or> n = 178 \<or> n = 179 \<or> n = 181 \<or> n = 185 \<or> n = 186 \<or>
         (188 \<le> n \<and> n \<le> 190) \<or> (192 \<le> n \<and> n \<le> 214) \<or> (216 \<le> n \<and> n \<le> 246) \<or>
         248 \<le> n)"

text \<open>Python's \<open>sub in s\<close> on strings: a scan for the first position where \<open>sub\<close> starts.\<close>

fun py_in :: "string \<Rightarrow> string \<Rightarrow> bool" where
  "py_in sub [] = (sub = [])"
| "py_in sub (c # cs) = (prefix sub (c # cs) \<or> py_in sub cs)"

definition py_index :: "nat \<Rightarrow> int \<Rightarrow> nat" where
  "py_index n i = (if i < 0 then nat (max (i + int n) 0) else min (nat i) n)"

text \<open>
  \<open>py_slice xs i j\<close> is Python's \<open>xs[i:j]\<close>: a negative index counts from the end, and
  both indices are clamped to the range of the sequence.
\<close>

definition py_slice :: "'a list \<Rightarrow> int \<Rightarrow> int \<Rightarrow> 'a list" where
  "py_slice xs i j =
     (let a = py_index (length xs) i; b = py_index (length xs) j
      in take (b - a) (drop a xs))"

function str_nat :: "nat \<Rightarrow> string" where
  "str_nat n =
     (if n < 10 then [char_of (48 + n)] else str_nat (n div 10) @ [char_of (48 + n mod 10)])"
  by pat_completeness auto
termination
  by (relation "measure id") auto

section \<open>Text chunker (utils.py)\<close>

text \<open>
  The \<open>while\<close> loop of \<open>chunk_text\<close>. Nothing in the source bounds the number of
  iterations, so the loop is a partial function: \<open>None\<close> is "does not return".
\<close>

partial_function (option) chunk_loop ::
  "string \<Rightarrow> int \<Rightarrow> int \<Rightarrow> int \<Rightarrow> string list \<Rightarrow> string list option" where
  "chunk_loop text chunk_size overlap start chunks =
     (if start < int (length text)
      then chunk_loop text chunk_size overlap (start + (chunk_size - overlap))
             (chunks @ [py_slice text start (min (start + chunk_size) (int (length text)))])
      else Some chunks)"

definition chunk_text :: "string \<Rightarrow> int \<Rightarrow> int \<Rightarrow> string list option" where
  "chunk_text text chunk_size overlap = chunk_loop text chunk_size overlap 0 []"

text \<open>The number of multiples of \<open>step\<close> below \<open>len\<close>: how many windows a text has.\<close>

definition chunk_count :: "nat \<Rightarrow> nat \<Rightarrow> nat" where
  "chunk_count len step = (len + step - 1) div step"

section \<open>Regular expressions of the risk extractor (analysis.py)\<close>

text \<open>
  \<open>re.split(r'### Risk:', analysis_text)\<close>: the text is cut at every occurrence of the
  delimiter, found from left to right without overlap. \<open>cur\<close> holds, reversed, the
  characters of the current piece.
\<close>

fun re_split :: "string \<Rightarrow> string \<Rightarrow> string \<Rightarrow> string list" where
  "re_split d cur [] = [rev cur]"
| "re_split d cur (c # cs) =
     (if prefix d (c # cs) then rev cur # re_split d [] (drop (length d - 1) cs)
      else re_split d (c # cur) cs)"

definition risk_blocks :: "string \<Rightarrow> string list" where
  "risk_blocks analysis_text = tl (re_split ''### Risk:'' [] analysis_text)"

text \<open>
  \<open>re.search(r'(.+?)\n', block)\<close>: the dot does not match a newline, so the leftmost match
  starts at the first character that is not a newline and runs to the end of that line,
  which must be closed by a newline.
\<close>

definition risk_name_match :: "string \<Rightarrow> string option" where
  "risk_name_match block =
     (let s = dropWhile (\<lambda>c. c = CHR 0x0A) block
      in if CHR 0x0A \<in> set s then Some (takeWhile (\<lambda>c. c \<noteq> CHR 0x0A) s) else None)"

text \<open>\<open>re.search(r'\*\*Severity\*\*: (Low|Medium|High)', block)\<close>, returning the group.\<close>

fun severity_match :: "string \<Rightarrow> string option" where
  "severity_match [] = None"
| "severity_match (c # cs) =
     (if prefix ''**Severity**: Low'' (c # cs) then Some ''Low''
      else if prefix ''**Severity**: Medium'' (c # cs) then Some ''Medium''
      else if prefix ''**Severity**: High'' (c # cs) then Some ''High''
      else severity_match cs)"

text \<open>
  \<open>re.search(r'\*\*Reason\*\*: (.+?)(?=\n\*\*Suggestion\*\*:|$)', block, re.DOTALL)\<close>:
  the group takes at least one character (any character, with DOTALL) and then as few as
  possible until the lookahead holds; \<open>$\<close> holds at the end of the block and before a
  newline that ends it.
\<close>

definition suggestion_ahead :: "string \<Rightarrow> bool" where
  "suggestion_ahead rest \<longleftrightarrow>
     prefix ''\<newline>**Suggestion**:'' rest \<or> rest = [] \<or> rest = ''\<newline>''"

fun reason_group :: "string \<Rightarrow> string" where
  "reason_group [] = []"
| "reason_group (c # cs) = (if suggestion_ahead (c # cs) then [] else c # reason_group cs)"

fun reason_match :: "string \<Rightarrow> string option" where
  "reason_match [] = None"
| "reason_match (c # cs) =
     (if prefix ''**Reason**: '' (c # cs)
      then (case drop (length ''**Reason**: '') (c # cs) of
              [] \<Rightarrow> reason_match cs
            | r # rest \<Rightarrow> Some (r # reason_group rest))
      else reason_match cs)"

text \<open>
  The four content checks are case-insensitive searches for an alternation of literals,
  one of them (\<open>sh\b\<close>) followed by a word boundary. After a literal that ends in a word
  character, \<open>\b\<close> holds at the end of the text and before a character that is not a word
  character.
\<close>

datatype alt = Lit string | LitB string

fun alt_at :: "alt \<Rightarrow> string \<Rightarrow> bool" where
  "alt_at (Lit l) s \<longleftrightarrow> py_lower (take (length l) s) = l"
| "alt_at (LitB l) s \<longleftrightarrow>
     py_lower (take (length l) s) = l \<and>
     (case drop (length l) s of [] \<Rightarrow> True | d # _ \<Rightarrow> \<not> is_word d)"

fun re_search_ci :: "alt list \<Rightarrow> string \<Rightarrow> bool" where
  "re_search_ci alts [] = list_ex (\<lambda>a. alt_at a []) alts"
| "re_search_ci alts (c # cs) = (list_ex (\<lambda>a. alt_at a (c # cs)) alts \<or> re_search_ci alts cs)"

section \<open>Risk extractor (analysis.py)\<close>

record finding =
  risk_name :: string
  severity :: string

text \<open>
  The body of the \<open>for block in risk_blocks\<close> loop of \<open>detect_owasp_risks\<close>; each
  \<open>continue\<close> goes on with the remaining blocks and the list \<open>detected\<close> unchanged.
\<close>

fun detect_loop :: "string list \<Rightarrow> string \<Rightarrow> finding list \<Rightarrow> finding list" where
  "detect_loop [] content detected = detected"
| "detect_loop (block # blocks) content detected =
     (case (risk_name_match block, severity_match block, reason_match block) of
        (Some name_g, Some severity_g, Some reason_g) \<Rightarrow>
          (let risk_name = py_strip name_g;
               severity = severity_g;
               reason = py_strip reason_g
           in if py_in ''registry'' (py_lower risk_name) \<and>
                 \<not> re_search_ci [Lit ''registry'', Lit ''image''] content
              then detect_loop blocks content detected
              else if py_in ''shell'' (py_lower risk_name) \<and>
                 \<not> re_search_ci [Lit ''script'', LitB ''sh'', Lit ''bash'', Lit ''command''] content
              then detect_loop blocks content detected
              else if py_in ''network'' (py_lower risk_name) \<and>
                 \<not> re_search_ci [Lit ''network'', Lit ''host'', Lit ''bridge'', Lit ''overlay''] content
              then detect_loop blocks content detected
              else if py_in ''gitlab'' (py_lower risk_name) \<and>
                 \<not> re_search_ci [Lit ''gitlab'', Lit ''runner'', Lit ''token''] content
              then detect_loop blocks content detected
              else detect_loop blocks content
                     (detected @ [\<lparr>risk_name = risk_name, severity = severity\<rparr>]))
      | _ \<Rightarrow> detect_loop blocks content detected)"

definition detect_owasp_risks :: "string \<Rightarrow> string \<Rightarrow> finding list" where
  "detect_owasp_risks analysis_text content = detect_loop (risk_blocks analysis_text) content []"

section \<open>Hosted completion backend with retries (analysis.py)\<close>

text \<open>
  One call of \<open>gemini_model.generate_content\<close> together with the reading of its result:
  it raises an exception with a message, or returns a response without candidates, or a
  response with a text. The backend is a function from the number of the attempt to the
  outcome of that call; the prompt, built from the content or from the question and the
  context, only reaches the backend and is left out. The calls, the messages shown and
  the sleeps are recorded as a trace of events.
\<close>

datatype outcome = Raises string | NoCandidate | Text string

datatype event = GenerateContent | StWarning | StError | Sleep nat

text \<open>
  The \<open>for attempt in range(max_retries)\<close> loop shared by \<open>analyze_with_gemini\<close> and
  \<open>generate_rag_response\<close>, which differ in three string constants. A loop that ends
  without \<open>return\<close> makes the Python function return \<open>None\<close>.
\<close>

fun gemini_attempts ::
  "string \<Rightarrow> string \<Rightarrow> string \<Rightarrow> (nat \<Rightarrow> outcome) \<Rightarrow> int \<Rightarrow> nat list \<Rightarrow> event list
     \<Rightarrow> string option \<times> event list" where
  "gemini_attempts empty_msg quota_msg fail_msg backend max_retries [] trace = (None, trace)"
| "gemini_attempts empty_msg quota_msg fail_msg backend max_retries (attempt # rest) trace =
     (case backend attempt of
        Text t \<Rightarrow> (Some t, trace @ [GenerateContent])
      | NoCandidate \<Rightarrow> (Some empty_msg, trace @ [GenerateContent])
      | Raises e \<Rightarrow>
          if py_in ''quota'' (py_lower e)
          then if int attempt < max_retries - 1
               then gemini_attempts empty_msg quota_msg fail_msg backend max_retries rest
                      (trace @ [GenerateContent, StWarning, Sleep 60])
               else (Some (quota_msg @ e), trace @ [GenerateContent, StError])
          else (Some (fail_msg @ e), trace @ [GenerateContent]))"

definition analyze_with_gemini :: "(nat \<Rightarrow> outcome) \<Rightarrow> string option \<times> event list" where
  "analyze_with_gemini backend =
     gemini_attempts ''No vulnerabilities detected in the provided code.''
       ''Analysis failed due to quota limit: '' ''Analysis failed: '' backend 3 [0..<3] []"

text \<open>
  The context of \<open>generate_rag_response\<close> is what \<open>query_vectors\<close> returns: a list whose
  elements are lists of documents or strings. \<open>ollama\<close> is the outcome of the one call of
  the local backend: an exception message or the content of the answer.
\<close>

datatype ctx_elem = Docs "string list" | Msg string

definition generate_rag_response ::
  "ctx_elem list \<Rightarrow> string \<Rightarrow> (string + string) \<Rightarrow> (nat \<Rightarrow> outcome) \<Rightarrow> string option \<times> event list" where
  "generate_rag_response context model_type ollama backend =
     (if context = [] \<or> hd context = Docs [''no related files found'']
      then (Some ''No related files found in the scan results.'', [])
      else if model_type = ''OLLAMA''
      then (case ollama of
              Inr answer \<Rightarrow> (Some answer, [])
            | Inl e \<Rightarrow> (Some (''Response generation failed: '' @ e), []))
      else gemini_attempts ''No response generated by Gemini. Please try again later.''
             ''Response generation failed due to quota limit: ''
             ''Response generation failed: '' backend 3 [0..<3] [])"

section \<open>Relational store (database.py)\<close>

text \<open>
  A row of the table \<open>scan_results\<close>. The column \<open>risks\<close> holds \<open>str(risks)\<close> and is read
  back with \<open>eval\<close>; on lists of findings \<open>eval\<close> inverts \<open>str\<close>, and the model keeps the
  list itself. The columns \<open>id\<close> and \<open>timestamp\<close> are left out.
\<close>

record scan_record =
  file_path :: string
  content :: string
  risks :: "finding list"
  analysis :: string

text \<open>
  SQLite's \<open>LIKE\<close>: \<open>%\<close> stands for any sequence of characters, \<open>_\<close> for any one
  character, and the letters A-Z and a-z match without regard to case.
\<close>

definition sql_lower :: "char \<Rightarrow> char" where
  "sql_lower c =
     (let n = (of_char c :: nat) in if 65 \<le> n \<and> n \<le> 90 then char_of (n + 32) else c)"

fun sql_like :: "string \<Rightarrow> string \<Rightarrow> bool" where
  "sql_like [] s \<longleftrightarrow> s = []"
| "sql_like (p # ps) [] \<longleftrightarrow> p = CHR ''%'' \<and> sql_like ps []"
| "sql_like (p # ps) (c # cs) \<longleftrightarrow>
     (if p = CHR ''%'' then sql_like ps (c # cs) \<or> sql_like (p # ps) cs
      else (p = CHR ''_'' \<or> sql_lower p = sql_lower c) \<and> sql_like ps cs)"

text \<open>\<open>DELETE FROM scan_results WHERE file_path LIKE ?\<close> with the parameter \<open>directory%\<close>.\<close>

definition clean_previous_data :: "string \<Rightarrow> scan_record list \<Rightarrow> scan_record list" where
  "clean_previous_data directory table =
     filter (\<lambda>row. \<not> sql_like (directory @ ''%'') (file_path row)) table"

definition store_in_database ::
  "string \<Rightarrow> string \<Rightarrow> finding list \<Rightarrow> string \<Rightarrow> scan_record list \<Rightarrow> scan_record list" where
  "store_in_database path text found analysis_text table =
     table @ [\<lparr>file_path = path, content = text, risks = found, analysis = analysis_text\<rparr>]"

section \<open>Risk counts (analysis.py, database.py)\<close>

datatype py_error = KeyError | VectorStoreError

type_synonym risk_count = "string \<rightharpoonup> (string \<rightharpoonup> nat)"

text \<open>
  The loop \<open>for risk in detected_risks\<close>, written twice in the source with the same body.
  The dictionary is updated in place, so a \<open>KeyError\<close> leaves the updates made before it.
\<close>

fun count_risks :: "finding list \<Rightarrow> risk_count \<Rightarrow> risk_count \<times> py_error option" where
  "count_risks [] rc = (rc, None)"
| "count_risks (risk # rest) rc =
     (let rc1 = (if rc (risk_name risk) = None
                 then rc(risk_name risk \<mapsto> [''Low'' \<mapsto> 0, ''Medium'' \<mapsto> 0, ''High'' \<mapsto> 0])
                 else rc)
      in case rc1 (risk_name risk) of
           None \<Rightarrow> (rc1, Some KeyError)
         | Some counts \<Rightarrow>
             (case counts (severity risk) of
                None \<Rightarrow> (rc1, Some KeyError)
              | Some n \<Rightarrow>
                  count_risks rest (rc1(risk_name risk \<mapsto> counts(severity risk \<mapsto> n + 1)))))"

fun load_rows :: "scan_record list \<Rightarrow> risk_count \<Rightarrow> py_error + risk_count" where
  "load_rows [] rc = Inr rc"
| "load_rows (row # rows) rc =
     (case count_risks (risks row) rc of
        (rc', Some e) \<Rightarrow> Inl e
      | (rc', None) \<Rightarrow> load_rows rows rc')"

definition load_risk_count_from_db :: "scan_record list \<Rightarrow> py_error + risk_count" where
  "load_risk_count_from_db table = load_rows table Map.empty"

section \<open>Vector store (database.py)\<close>

record metadata =
  md_file_path :: string
  md_filename :: string
  md_directory :: string
  md_risks :: "finding list"
  md_content_type :: string
  md_chunk_id :: "nat option"

record vector_entry =
  ve_id :: string
  ve_document :: string
  ve_metadata :: metadata

text \<open>\<open>os.path.basename\<close> and \<open>os.path.dirname\<close> on POSIX paths.\<close>

definition basename :: "string \<Rightarrow> string" where
  "basename p = rev (takeWhile (\<lambda>c. c \<noteq> CHR ''/'') (rev p))"

definition dirname :: "string \<Rightarrow> string" where
  "dirname p =
     (let head = rev (dropWhile (\<lambda>c. c \<noteq> CHR ''/'') (rev p))
      in if head \<noteq> [] \<and> \<not> list_all (\<lambda>c. c = CHR ''/'') head
         then rev (dropWhile (\<lambda>c. c = CHR ''/'') (rev head)) else head)"

definition normalize_path :: "string \<Rightarrow> string" where
  "normalize_path p = map (\<lambda>c. if c = CHR 0x5C then CHR ''/'' else c) p"

definition summary_doc :: "string \<Rightarrow> string \<Rightarrow> string \<Rightarrow> string \<Rightarrow> string" where
  "summary_doc path filename text analysis_text =
     ''\<newline>        [File Path] '' @ path @
     ''\<newline>        [Filename] '' @ filename @
     ''\<newline>        [Content Summary] '' @ py_slice text 0 2000 @
     ''\<newline>        [Risk Analysis] '' @ py_slice analysis_text 0 1000 @
     ''\<newline>        ''"

text \<open>
  \<open>store_in_vector_db\<close>: the ids that start with the normalized path are deleted, then the
  chunks and the summary document are added. \<open>add_ok\<close> says whether \<open>collection.add\<close>
  (which embeds the documents) succeeds; when it raises, the deletion has already
  happened. \<open>chunk_text\<close> runs with its default arguments; \<open>None\<close> is a call that does
  not return.
\<close>

definition store_in_vector_db ::
  "string \<Rightarrow> string \<Rightarrow> string \<Rightarrow> (string \<Rightarrow> string \<Rightarrow> finding list) \<Rightarrow> bool
     \<Rightarrow> vector_entry list \<Rightarrow> (vector_entry list \<times> py_error option) option" where
  "store_in_vector_db path text analysis_text detect_owasp_risks_func add_ok collection =
     (let normalized_path = normalize_path path;
          kept = filter (\<lambda>e. \<not> prefix normalized_path (ve_id e)) collection;
          metadata_base = \<lparr>md_file_path = path,
                           md_filename = py_lower (basename path),
                           md_directory = dirname path,
                           md_risks = detect_owasp_risks_func analysis_text text,
                           md_content_type = ''cicd_config'',
                           md_chunk_id = None\<rparr>
      in case chunk_text text 1000 200 of
           None \<Rightarrow> None
         | Some chunks \<Rightarrow>
             (let chunk_entries =
                    map (\<lambda>(i, chunk).
                           \<lparr>ve_id = normalized_path @ ''_chunk_'' @ str_nat i,
                            ve_document = chunk,
                            ve_metadata = metadata_base\<lparr>md_chunk_id := Some i\<rparr>\<rparr>)
                      (enumerate 0 chunks);
                  summary = \<lparr>ve_id = normalized_path,
                             ve_document = summary_doc path (md_filename metadata_base) text analysis_text,
                             ve_metadata = metadata_base\<rparr>
              in if add_ok then Some (kept @ chunk_entries @ [summary], None)
                 else Some (kept, Some VectorStoreError)))"




section \<open>Scan orchestrator (analysis.py)\<close>

text \<open>
  What the environment gives for one file that \<open>os.walk\<close> lists: its path, the result of
  \<open>load_file_content\<close> (\<open>None\<close> when the file cannot be read), the text that the analysis
  backend chosen by \<open>model_type\<close> returns for it, and whether adding to the vector store
  succeeds. The progress bar, the messages and the pacing sleep are left out.
\<close>

record file_env =
  fe_path :: string
  fe_content :: "string option"
  fe_analysis :: string
  fe_add_ok :: bool

record scan_result =
  sr_file_path :: string
  sr_risks :: "finding list"
  sr_analysis :: string

text \<open>
  The local variables \<open>results\<close> and \<open>risk_count\<close> of \<open>scan_directory\<close> and the two
  stores: the table \<open>scan_results\<close> and the vector collection.
\<close>

record scan_state =
  results :: "scan_result list"
  risk_count :: risk_count
  scan_table :: "scan_record list"
  vectors :: "vector_entry list"

text \<open>
  The body of the loop over the files. An exception raised in the \<open>try\<close> block is caught:
  the loop goes on with the next file, and what was written before the exception stays.
\<close>

definition scan_file :: "file_env \<Rightarrow> scan_state \<Rightarrow> scan_state option" where
  "scan_file f st =
     (case fe_content f of
        None \<Rightarrow> Some st
      | Some text \<Rightarrow>
          if text = [] then Some st
          else if py_in ''Analysis failed'' (fe_analysis f) \<or>
                  py_in ''No vulnerabilities detected'' (fe_analysis f)
          then Some st
          else
            (let detected_risks = detect_owasp_risks (fe_analysis f) text
             in case count_risks detected_risks (risk_count st) of
                  (rc, Some e) \<Rightarrow> Some (st\<lparr>risk_count := rc\<rparr>)
                | (rc, None) \<Rightarrow>
                    (let stored = store_in_database (fe_path f) text detected_risks
                                    (fe_analysis f) (scan_table st)
                     in case store_in_vector_db (fe_path f) text (fe_analysis f)
                               detect_owasp_risks (fe_add_ok f) (vectors st) of
                          None \<Rightarrow> None
                        | Some (coll, Some e) \<Rightarrow>
                            Some (st\<lparr>risk_count := rc, scan_table := stored, vectors := coll\<rparr>)
                        | Some (coll, None) \<Rightarrow>
                            Some (st\<lparr>results := results st @
                                        [\<lparr>sr_file_path = fe_path f, sr_risks = detected_risks,
                                          sr_analysis = fe_analysis f\<rparr>],
                                      risk_count := rc, scan_table := stored, vectors := coll\<rparr>))))"

fun scan_files :: "file_env list \<Rightarrow> scan_state \<Rightarrow> scan_state option" where
  "scan_files [] st = Some st"
| "scan_files (f # fs) st =
     (case scan_file f st of None \<Rightarrow> None | Some st' \<Rightarrow> scan_files fs st')"

text \<open>
  \<open>scan_directory\<close> on the stores \<open>table\<close> and \<open>coll\<close>; \<open>files\<close> is the list that
  \<open>os.walk(directory)\<close> gives. The final state holds the returned pair
  \<open>(results, risk_count)\<close> and the stores after the scan.
\<close>

definition scan_directory ::
  "string \<Rightarrow> file_env list \<Rightarrow> scan_record list \<Rightarrow> vector_entry list \<Rightarrow> scan_state option" where
  "scan_directory directory files table coll =
     (let cleaned = clean_previous_data directory table
      in if files = []
         then Some \<lparr>results = [], risk_count = Map.empty, scan_table = cleaned, vectors = coll\<rparr>
         else scan_files files
                \<lparr>results = [], risk_count = Map.empty, scan_table = cleaned, vectors = coll\<rparr>)"

section \<open>Notions of the specification\<close>

text \<open>
  The candidate finding of a block: present when the three fields are found.
\<close>

definition candidate :: "string \<Rightarrow> finding option" where
  "candidate block =
     (case (risk_name_match block, severity_match block, reason_match block) of
        (Some n, Some s, Some r) \<Rightarrow> Some \<lparr>risk_name = py_strip n, severity = s\<rparr>
      | _ \<Rightarrow> None)"

text \<open>
  \<open>ends_word w s\<close>: at some position the text \<open>s\<close> has the word \<open>w\<close>, in any case of
  the letters, followed by the end of the text or by a character that is not a word
  character.
\<close>

definition ends_word :: "string \<Rightarrow> string \<Rightarrow> bool" where
  "ends_word w s \<longleftrightarrow>
     list_ex (\<lambda>i. py_lower (take (length w) (drop i s)) = w \<and>
                  (case drop (i + length w) s of [] \<Rightarrow> True | d # _ \<Rightarrow> \<not> is_word d))
       [0..<Suc (length s)]"

text \<open>
  The keyword rules of the corroboration filter: a rule applies when the name of the
  finding contains its keyword, and the content has the vocabulary of the rule when
  it contains one of the rule's words, in any case of the letters.
\<close>

definition has_word :: "string \<Rightarrow> string \<Rightarrow> bool" where
  "has_word w s \<longleftrightarrow> sublist w (py_lower s)"

definition lacks_vocabulary :: "string \<Rightarrow> string \<Rightarrow> bool" where
  "lacks_vocabulary name text \<longleftrightarrow>
     has_word ''registry'' name \<and> \<not> (has_word ''registry'' text \<or> has_word ''image'' text) \<or>
     has_word ''shell'' name \<and>
       \<not> (has_word ''script'' text \<or> ends_word ''sh'' text \<or> has_word ''bash'' text \<or>
          has_word ''command'' text) \<or>
     has_word ''network'' name \<and>
       \<not> (has_word ''network'' text \<or> has_word ''host'' text \<or> has_word ''bridge'' text \<or>
          has_word ''overlay'' text) \<or>
     has_word ''gitlab'' name \<and>
       \<not> (has_word ''gitlab'' text \<or> has_word ''runner'' text \<or> has_word ''token'' text)"


text \<open>
  A transient failure of the hosted backend is an exception whose message contains
  \<open>quota\<close>, in any case of the letters. \<open>backoff k\<close> is the trace of \<open>k\<close> failed attempts,
  each followed by a warning and a sleep of 60 seconds.
\<close>

definition transient :: "outcome \<Rightarrow> bool" where
  "transient r = (case r of Raises e \<Rightarrow> py_in ''quota'' (py_lower e) | _ \<Rightarrow> False)"

definition backoff :: "nat \<Rightarrow> event list" where
  "backoff k = concat (replicate k [GenerateContent, StWarning, Sleep 60])"

text \<open>
  A dictionary of risk counts is initialised when each of its entries has the three
  severity keys.
\<close>

definition counts_ok :: "risk_count \<Rightarrow> bool" where
  "counts_ok rc \<longleftrightarrow>
     (\<forall>name counts. rc name = Some counts \<longrightarrow>
        counts ''Low'' \<noteq> None \<and> counts ''Medium'' \<noteq> None \<and> counts ''High'' \<noteq> None)"

text \<open>
  A file is persisted by a scan when its content was read and is not empty and the
  analysis neither failed nor reported that there are no vulnerabilities; \<open>rows_of\<close> is
  the row that the scan then writes for it.
\<close>

definition persisted :: "file_env \<Rightarrow> bool" where
  "persisted f \<longleftrightarrow>
     (case fe_content f of
        None \<Rightarrow> False
      | Some text \<Rightarrow>
          text \<noteq> [] \<and> \<not> sublist ''Analysis failed'' (fe_analysis f) \<and>
          \<not> sublist ''No vulnerabilities detected'' (fe_analysis f))"

definition rows_of :: "file_env \<Rightarrow> scan_record list" where
  "rows_of f =
     (case fe_content f of
        None \<Rightarrow> []
      | Some text \<Rightarrow>
          if persisted f
          then [\<lparr>file_path = fe_path f, content = text,
                 risks = detect_owasp_risks (fe_analysis f) text, analysis = fe_analysis f\<rparr>]
          else [])"








section \<open>Properties of the text chunker\<close>

lemma chunk_loop_no_result:
  assumes "chunk_loop tx chunk_size overlap start chunks = Some ys"
  shows "\<not> (chunk_size \<le> overlap \<and> start < int (length tx))"
proof (rule chunk_loop.raw_induct
    [where P = "\<lambda>t c ov s ch ys. \<not> (c \<le> ov \<and> s < int (length t))", OF _ assms], goal_cases)
  case (1 f t c ov s ch ys)
  show ?case
  proof
    assume inv: "c \<le> ov \<and> s < int (length t)"
    with 1(2) have call:
      "f t c ov (s + (c - ov)) (ch @ [py_slice t s (min (s + c) (int (length t)))]) = Some ys"
      by simp
    from inv have "c \<le> ov \<and> s + (c - ov) < int (length t)"
      by simp
    with 1(1) [OF call] show False by blast
  qed
qed

lemma chunk_loop_diverges:
  "chunk_size \<le> overlap \<Longrightarrow> start < int (length text) \<Longrightarrow>
   chunk_loop text chunk_size overlap start chunks = None"
  using chunk_loop_no_result [of "text" chunk_size overlap start chunks]
  by (cases "chunk_loop text chunk_size overlap start chunks") auto

lemma map_upt_shift: "map f [0..<Suc n] = f 0 # map (\<lambda>k. f (Suc k)) [0..<n]"
  by (simp add: upt_conv_Cons map_Suc_upt [symmetric] del: upt_Suc)

lemma chunk_loop_steps:
  assumes "0 < chunk_size - overlap"
    and "int (length text) \<le> start + int n * (chunk_size - overlap)"
    and "\<forall>k<n. start + int k * (chunk_size - overlap) < int (length text)"
  shows "chunk_loop text chunk_size overlap start chunks =
     Some (chunks @ map (\<lambda>k. py_slice text (start + int k * (chunk_size - overlap))
        (min (start + int k * (chunk_size - overlap) + chunk_size) (int (length text)))) [0..<n])"
  using assms
proof (induction n arbitrary: start chunks)
  case 0
  then show ?case by (subst chunk_loop.simps) simp
next
  case (Suc n)
  let ?s = "chunk_size - overlap"
  from Suc.prems(3) have lt: "start < int (length text)" by force
  have a: "int (length text) \<le> (start + ?s) + int n * ?s"
    using Suc.prems(2) by (simp add: algebra_simps)
  have b: "\<forall>k<n. (start + ?s) + int k * ?s < int (length text)"
  proof (intro allI impI)
    fix k assume "k < n"
    then have "start + int (Suc k) * ?s < int (length text)"
      using Suc.prems(3) by (meson Suc_less_eq)
    then show "(start + ?s) + int k * ?s < int (length text)" by (simp add: algebra_simps)
  qed
  have shift: "\<And>k. start + ?s + int k * ?s = start + int (Suc k) * ?s"
    by (simp add: algebra_simps)
  show ?case
    apply (subst chunk_loop.simps)
    apply (simp only: lt if_True Suc.IH [OF Suc.prems(1) a b] shift)
    apply (simp only: map_upt_shift [of _ n])
    apply simp
    done
qed


lemma chunk_loop_terminates:
  assumes "overlap < chunk_size"
  shows "\<exists>ys. chunk_loop tx chunk_size overlap start chunks = Some ys"
proof (induction "nat (int (length tx) - start)" arbitrary: start chunks rule: less_induct)
  case less
  show ?case
  proof (cases "start < int (length tx)")
    case False
    then show ?thesis by (subst chunk_loop.simps) simp
  next
    case True
    with assms have "nat (int (length tx) - (start + (chunk_size - overlap)))
        < nat (int (length tx) - start)"
      by linarith
    from less [OF this] True show ?thesis
      by (subst chunk_loop.simps) simp
  qed
qed

text \<open>
  C3 (amended). \<open>chunk_text\<close> does not validate its arguments. It returns exactly when
  the overlap is smaller than the chunk size or the text is empty; for a non-empty text and
  an overlap that is not smaller than the chunk size the loop never ends.
\<close>

theorem chunk_text_returns_iff:
  "(\<exists>chunks. chunk_text tx chunk_size overlap = Some chunks) \<longleftrightarrow> (overlap < chunk_size \<or> tx = [])"
proof (cases "overlap < chunk_size")
  case True
  then show ?thesis
    using chunk_loop_terminates [of overlap chunk_size tx 0 "[]"] by (simp add: chunk_text_def)
next
  case False
  show ?thesis
  proof (cases "tx = []")
    case True
    then show ?thesis by (simp add: chunk_text_def chunk_loop.simps)
  next
    case nonempty: False
    with False have "chunk_loop tx chunk_size overlap 0 [] = None"
      by (intro chunk_loop_diverges) simp_all
    with False nonempty show ?thesis by (simp add: chunk_text_def)
  qed
qed

lemma py_slice_window:
  assumes "0 \<le> i" "0 \<le> c"
  shows "py_slice xs i (min (i + c) (int (length xs))) = take (nat c) (drop (nat i) xs)"
proof (cases "nat i \<le> length xs")
  case True
  with assms have a: "py_index (length xs) i = nat i" by (simp add: py_index_def)
  from assms have b: "py_index (length xs) (min (i + c) (int (length xs))) =
      nat (min (i + c) (int (length xs)))"
    by (auto simp: py_index_def min_def)
  from assms True have c: "nat (min (i + c) (int (length xs))) - nat i = min (nat c) (length xs - nat i)"
    by (simp add: min_def) linarith
  have "py_slice xs i (min (i + c) (int (length xs))) =
      take (min (nat c) (length xs - nat i)) (drop (nat i) xs)"
    unfolding py_slice_def Let_def a b c ..
  then show ?thesis by (simp add: min_def)
next
  case False
  with assms show ?thesis by (simp add: py_slice_def py_index_def min_def)
qed

lemma chunk_count_bounds:
  assumes "0 < step"
  shows "k < chunk_count len step \<longleftrightarrow> k * step < len"
proof -
  have "k < (len + step - 1) div step \<longleftrightarrow> (k + 1) * step \<le> len + step - 1"
    using assms by (metis Suc_eq_plus1 Suc_le_eq less_mult_imp_div_less div_le_mono div_mult_self_is_m 
       linorder_not_less mult.commute)
  also have "\<dots> \<longleftrightarrow> k * step < len" using assms by (cases step) auto
  finally show ?thesis by (simp add: chunk_count_def)
qed

lemma chunk_text_windows:
  assumes "0 \<le> overlap" "overlap < chunk_size"
  shows "chunk_text tx chunk_size overlap =
     Some (map (\<lambda>k. take (nat chunk_size) (drop (k * nat (chunk_size - overlap)) tx))
            [0..<chunk_count (length tx) (nat (chunk_size - overlap))])"
proof -
  let ?s = "chunk_size - overlap"
  let ?n = "chunk_count (length tx) (nat ?s)"
  from assms have pos: "0 < nat ?s" by simp
  have lt: "\<forall>k<?n. 0 + int k * ?s < int (length tx)"
  proof (intro allI impI)
    fix k assume "k < ?n"
    with chunk_count_bounds [OF pos] have "k * nat ?s < length tx" by simp
    then have "int (k * nat ?s) < int (length tx)" by (simp only: of_nat_less_iff)
    with assms show "0 + int k * ?s < int (length tx)" by simp
  qed
  have "\<not> ?n * nat ?s < length tx" using chunk_count_bounds [OF pos, of ?n "length tx"] by simp
  then have "int (length tx) \<le> int (?n * nat ?s)" by (simp only: of_nat_le_iff not_less)
  with assms have ge: "int (length tx) \<le> 0 + int ?n * ?s" by simp
  from assms have "0 < ?s" by simp
  from chunk_loop_steps [OF this ge lt, of "[]"]
  have "chunk_text tx chunk_size overlap =
      Some (map (\<lambda>k. py_slice tx (int k * ?s) (min (int k * ?s + chunk_size) (int (length tx)))) [0..<?n])"
    by (simp add: chunk_text_def)
  moreover have "\<And>k. py_slice tx (int k * ?s) (min (int k * ?s + chunk_size) (int (length tx)))
      = take (nat chunk_size) (drop (k * nat ?s) tx)"
    using assms by (subst py_slice_window) (simp_all add: nat_mult_distrib)
  ultimately show ?thesis by simp
qed


lemma take_min_length: "take (min a (length ys)) ys = take a ys"
  by (simp add: min_def)

text \<open>
  C4 (amended). For \<open>0 \<le> overlap < chunk_size\<close>, \<open>chunk_text\<close> returns windows of the text
  such that: window \<open>k\<close> starts at offset \<open>k * (chunk_size - overlap)\<close>, and there is one
  window for each such offset below the length of the text; every window is non-empty and
  at most \<open>chunk_size\<close> long; every position of the text lies in a window; each window but
  the last reaches the start of the next one, its characters from there on are the first
  characters of the next window, and they are exactly \<open>overlap\<close> many when the window has
  the full length \<open>chunk_size\<close>.
\<close>

theorem chunk_text_cover:
  assumes "0 \<le> overlap" and "overlap < chunk_size"
  shows "\<exists>chunks. chunk_text tx chunk_size overlap = Some chunks \<and>
    (\<forall>k. k < length chunks \<longleftrightarrow> k * nat (chunk_size - overlap) < length tx) \<and>
    (\<forall>k<length chunks.
        chunks ! k = take (nat chunk_size) (drop (k * nat (chunk_size - overlap)) tx) \<and>
        chunks ! k \<noteq> [] \<and> length (chunks ! k) \<le> nat chunk_size) \<and>
    (\<forall>i<length tx. \<exists>k<length chunks.
        k * nat (chunk_size - overlap) \<le> i \<and>
        i < k * nat (chunk_size - overlap) + length (chunks ! k)) \<and>
    (\<forall>k. Suc k < length chunks \<longrightarrow>
        nat (chunk_size - overlap) \<le> length (chunks ! k) \<and>
        drop (nat (chunk_size - overlap)) (chunks ! k) =
          take (length (chunks ! k) - nat (chunk_size - overlap)) (chunks ! Suc k) \<and>
        (length (chunks ! k) = nat chunk_size \<longrightarrow>
           length (chunks ! k) - nat (chunk_size - overlap) = nat overlap))"
proof -
  define s where "s = nat (chunk_size - overlap)"
  define c where "c = nat chunk_size"
  define n where "n = chunk_count (length tx) s"
  define chunks where "chunks = map (\<lambda>k. take c (drop (k * s) tx)) [0..<n]"
  from assms have pos: "0 < s" and sc: "s \<le> c" and ov: "c - s = nat overlap"
    by (simp_all add: s_def c_def)
  have run: "chunk_text tx chunk_size overlap = Some chunks"
    using chunk_text_windows [OF assms] by (simp add: chunks_def n_def s_def c_def)
  have len: "length chunks = n" by (simp add: chunks_def)
  have idx: "\<And>k. k < n \<longleftrightarrow> k * s < length tx"
    unfolding n_def by (rule chunk_count_bounds [OF pos])
  have nth: "\<And>k. k < n \<Longrightarrow> chunks ! k = take c (drop (k * s) tx)"
    by (simp add: chunks_def)
  have size: "\<And>k. k < n \<Longrightarrow> length (chunks ! k) = min c (length tx - k * s)"
    by (simp add: nth)
  have p1: "\<forall>k. k < length chunks \<longleftrightarrow> k * s < length tx"
    using idx len by simp
  have p2: "\<forall>k<length chunks. chunks ! k = take c (drop (k * s) tx) \<and>
        chunks ! k \<noteq> [] \<and> length (chunks ! k) \<le> c"
  proof (intro allI impI)
    fix k assume "k < length chunks"
    then have k: "k < n" by (simp add: len)
    with idx have "k * s < length tx" by simp
    moreover from pos sc have "0 < c" by simp
    ultimately have "0 < length (chunks ! k)" using size [OF k] by simp
    then show "chunks ! k = take c (drop (k * s) tx) \<and>
        chunks ! k \<noteq> [] \<and> length (chunks ! k) \<le> c"
      using nth [OF k] size [OF k] by auto
  qed
  have p3: "\<forall>i<length tx. \<exists>k<length chunks. k * s \<le> i \<and> i < k * s + length (chunks ! k)"
  proof (intro allI impI)
    fix i assume i: "i < length tx"
    define k where "k = i div s"
    define m where "m = k * s"
    have le: "m \<le> i" by (simp add: m_def k_def)
    from le i have "m < length tx" by (rule le_less_trans)
    with idx have k: "k < n" by (simp add: m_def)
    have "i < m + s" unfolding m_def k_def
      using pos by (metis div_mult_mod_eq mod_less_divisor add_less_cancel_left)
    with sc have "i < m + c" by simp
    with i le have "i < m + min c (length tx - m)"
      by (simp add: min_def)
    then have "i < k * s + length (chunks ! k)"
      by (simp add: size [OF k] m_def)
    with k le len show "\<exists>k<length chunks. k * s \<le> i \<and> i < k * s + length (chunks ! k)"
      unfolding m_def by blast
  qed
  have p4: "\<forall>k. Suc k < length chunks \<longrightarrow>
        s \<le> length (chunks ! k) \<and>
        drop s (chunks ! k) = take (length (chunks ! k) - s) (chunks ! Suc k) \<and>
        (length (chunks ! k) = c \<longrightarrow> length (chunks ! k) - s = nat overlap)"
  proof (intro allI impI)
    fix k assume "Suc k < length chunks"
    then have k1: "Suc k < n" and k: "k < n" by (simp_all add: len)
    from idx k1 have next_lt: "k * s + s < length tx" by simp
    from next_lt have "s \<le> length tx - k * s" by linarith
    with sc have a: "s \<le> length (chunks ! k)" unfolding size [OF k] by simp
    have "drop s (chunks ! k) = take (c - s) (drop (k * s + s) tx)"
      by (simp add: nth [OF k] drop_take add.commute)
    moreover have "take (length (chunks ! k) - s) (chunks ! Suc k) =
        take (c - s) (drop (k * s + s) tx)"
    proof -
      have "length (chunks ! k) - s = min (c - s) (length tx - (k * s + s))"
        unfolding size [OF k] by simp
      moreover have "take (min (c - s) (length tx - (k * s + s))) (drop (k * s + s) tx) =
          take (c - s) (drop (k * s + s) tx)"
        using take_min_length [of "c - s" "drop (k * s + s) tx"] by simp
      ultimately show ?thesis by (simp add: nth [OF k1] add.commute)
    qed
    ultimately have b: "drop s (chunks ! k) = take (length (chunks ! k) - s) (chunks ! Suc k)"
      by simp
    from a b ov show "s \<le> length (chunks ! k) \<and>
        drop s (chunks ! k) = take (length (chunks ! k) - s) (chunks ! Suc k) \<and>
        (length (chunks ! k) = c \<longrightarrow> length (chunks ! k) - s = nat overlap)"
      by simp
  qed
  from run p1 p2 p3 p4 show ?thesis
    unfolding s_def c_def by blast
qed

theorem chunk_text_returns_iff_witness:
  "(\<exists>chunks. chunk_text ''abc'' 2 1 = Some chunks) \<and> (\<nexists>chunks. chunk_text ''abc'' 2 2 = Some chunks)"
  using chunk_text_returns_iff [of "''abc''" 2 1] chunk_text_returns_iff [of "''abc''" 2 2]
  by simp

text \<open>
  The claim C3 as stated fails: with \<open>overlap = chunk_size\<close> the call is accepted and does not
  return.
\<close>

theorem chunk_text_no_validation_counterexample: "chunk_text ''a'' 1 1 = None"
  unfolding chunk_text_def by (rule chunk_loop_diverges) simp_all

theorem chunk_text_cover_witness:
  "(0::int) \<le> 1 \<and> (1::int) < 4 \<and>
   (\<exists>chunks. chunk_text ''abcdefghij'' 4 1 = Some chunks \<and>
      (\<forall>k. k < length chunks \<longleftrightarrow> k * nat (4 - 1) < length ''abcdefghij''))"
proof -
  have h1: "(0::int) \<le> 1" and h2: "(1::int) < 4" by simp_all
  have "\<exists>chunks. chunk_text ''abcdefghij'' 4 1 = Some chunks \<and>
      (\<forall>k. k < length chunks \<longleftrightarrow> k * nat (4 - 1) < length ''abcdefghij'')"
    using chunk_text_cover [OF h1 h2, of "''abcdefghij''"]
    by (elim exE conjE, intro exI conjI) assumption+
  with h1 h2 show ?thesis by (intro conjI)
qed

text \<open>
  The claim C4 as stated fails twice. With a negative overlap the windows leave gaps: the
  characters \<open>d\<close> and \<open>e\<close> are in no chunk. With an overlap of more than half the chunk size
  several windows reach the end of the text: the third and the fourth chunk, neither of
  them the last, share two characters and not three.
\<close>

theorem chunk_text_overlap_counterexample:
  "chunk_text ''abcdefgh'' 3 (- 2) = Some [''abc'', ''fgh''] \<and>
   chunk_text ''abcde'' 4 3 = Some [''abcd'', ''bcde'', ''cde'', ''de'', ''e'']"
  by (simp add: chunk_text_def chunk_loop.simps py_slice_def py_index_def)
section \<open>Properties of the retry loop\<close>

lemma three_attempts: "[0..<3] = [0, Suc 0, 2]"
  by (simp add: upt_rec)

lemma backoff_simps:
  "backoff 0 = []"
  "backoff (Suc 0) = [GenerateContent, StWarning, Sleep 60]"
  "backoff 2 = [GenerateContent, StWarning, Sleep 60, GenerateContent, StWarning, Sleep 60]"
  by (simp_all add: backoff_def numeral_2_eq_2)

lemma gemini_attempts_three_final:
  assumes "k < 3" and "\<forall>i<k. transient (backend i)" and "\<not> transient (backend k)"
  shows "gemini_attempts em qm fm backend 3 [0..<3] [] =
     (case backend k of
        Text t \<Rightarrow> (Some t, backoff k @ [GenerateContent])
      | NoCandidate \<Rightarrow> (Some em, backoff k @ [GenerateContent])
      | Raises e \<Rightarrow> (Some (fm @ e), backoff k @ [GenerateContent]))"
proof -
  from assms(1) consider "k = 0" | "k = Suc 0" | "k = 2" by linarith
  then show ?thesis
  proof cases
    case 1
    with assms(3) show ?thesis
      by (cases "backend 0") (simp_all add: three_attempts transient_def backoff_simps)
  next
    case 2
    with assms(2) have t0: "transient (backend 0)" by simp
    from 2 assms(3) have f1: "\<not> transient (backend (Suc 0))" by simp
    from t0 f1 show ?thesis unfolding 2
      by (cases "backend 0"; cases "backend (Suc 0)")
         (simp_all add: three_attempts transient_def backoff_simps)
  next
    case 3
    with assms(2) have t0: "transient (backend 0)" and t1: "transient (backend (Suc 0))"
      by simp_all
    from 3 assms(3) have f2: "\<not> transient (backend 2)" by simp
    from t0 t1 f2 show ?thesis unfolding 3
      by (cases "backend 0"; cases "backend (Suc 0)"; cases "backend 2")
         (simp_all add: three_attempts transient_def backoff_simps)
  qed
qed

lemma gemini_attempts_three_exhausted:
  assumes "\<forall>i<3. transient (backend i)"
  shows "\<exists>e. backend 2 = Raises e \<and>
     gemini_attempts em qm fm backend 3 [0..<3] [] =
       (Some (qm @ e), backoff 2 @ [GenerateContent, StError])"
proof -
  from assms have t0: "transient (backend 0)" and t1: "transient (backend (Suc 0))"
    and t2: "transient (backend 2)" by simp_all
  then show ?thesis
    by (cases "backend 0"; cases "backend (Suc 0)"; cases "backend 2")
       (simp_all add: three_attempts transient_def backoff_simps)
qed

lemma gemini_attempts_three_returns:
  "\<exists>s. fst (gemini_attempts em qm fm backend 3 [0..<3] []) = Some s"
proof (cases "\<forall>i<3. transient (backend i)")
  case True
  from gemini_attempts_three_exhausted [OF True, of em qm fm] show ?thesis by auto
next
  case False
  then obtain j where j: "j < 3" "\<not> transient (backend j)" by blast
  define k where "k = (LEAST i. \<not> transient (backend i))"
  have nk: "\<not> transient (backend k)" unfolding k_def using j(2) by (rule LeastI)
  have "k \<le> j" unfolding k_def using j(2) by (rule Least_le)
  with j have k3: "k < 3" by simp
  have "\<forall>i<k. transient (backend i)" unfolding k_def using not_less_Least by blast
  from gemini_attempts_three_final [OF k3 this nk, of em qm fm] show ?thesis
    by (auto split: outcome.splits)
qed

lemma gemini_attempts_three_calls:
  "length (filter (\<lambda>ev. ev = GenerateContent)
      (snd (gemini_attempts em qm fm backend 3 [0..<3] []))) \<le> 3"
  by (cases "backend 0"; cases "backend (Suc 0)"; cases "backend 2")
     (simp_all add: three_attempts)

text \<open>
  C7. With the hosted backend, \<open>analyze_with_gemini\<close> and \<open>generate_rag_response\<close> always
  return a string. When all three attempts fail with a quota error, three calls are made
  with a sleep of 60 seconds after the first and after the second, and the result is the
  quota failure string. An exception that is not a quota error is returned as a failure
  string by the attempt that meets it, with no further call; a text is returned likewise.
\<close>

theorem gemini_retry_policy:
  assumes "context \<noteq> []" and "hd context \<noteq> Docs [''no related files found'']"
    and "model_type \<noteq> ''OLLAMA''"
  shows "(\<exists>s. fst (analyze_with_gemini backend) = Some s) \<and>
    (\<exists>s. fst (generate_rag_response context model_type ollama backend) = Some s) \<and>
    length (filter (\<lambda>ev. ev = GenerateContent) (snd (analyze_with_gemini backend))) \<le> 3 \<and>
    length (filter (\<lambda>ev. ev = GenerateContent)
      (snd (generate_rag_response context model_type ollama backend))) \<le> 3 \<and>
    ((\<forall>i<3. transient (backend i)) \<longrightarrow>
       (\<exists>e. backend 2 = Raises e \<and>
          analyze_with_gemini backend =
            (Some (''Analysis failed due to quota limit: '' @ e),
             backoff 2 @ [GenerateContent, StError]) \<and>
          generate_rag_response context model_type ollama backend =
            (Some (''Response generation failed due to quota limit: '' @ e),
             backoff 2 @ [GenerateContent, StError]))) \<and>
    (\<forall>k e. k < 3 \<and> (\<forall>i<k. transient (backend i)) \<and> backend k = Raises e \<and>
        \<not> transient (Raises e) \<longrightarrow>
        analyze_with_gemini backend =
          (Some (''Analysis failed: '' @ e), backoff k @ [GenerateContent]) \<and>
        generate_rag_response context model_type ollama backend =
          (Some (''Response generation failed: '' @ e), backoff k @ [GenerateContent])) \<and>
    (\<forall>k t. k < 3 \<and> (\<forall>i<k. transient (backend i)) \<and> backend k = Text t \<longrightarrow>
        analyze_with_gemini backend = (Some t, backoff k @ [GenerateContent]) \<and>
        generate_rag_response context model_type ollama backend =
          (Some t, backoff k @ [GenerateContent]))"
proof -
  have rag: "generate_rag_response context model_type ollama backend =
      gemini_attempts ''No response generated by Gemini. Please try again later.''
        ''Response generation failed due to quota limit: ''
        ''Response generation failed: '' backend 3 [0..<3] []"
    using assms unfolding generate_rag_response_def by (simp only: if_False simp_thms)
  have ana: "analyze_with_gemini backend =
      gemini_attempts ''No vulnerabilities detected in the provided code.''
        ''Analysis failed due to quota limit: '' ''Analysis failed: '' backend 3 [0..<3] []"
    by (simp only: analyze_with_gemini_def)
  have p1: "\<exists>s. fst (analyze_with_gemini backend) = Some s"
    unfolding ana by (rule gemini_attempts_three_returns)
  have p2: "\<exists>s. fst (generate_rag_response context model_type ollama backend) = Some s"
    unfolding rag by (rule gemini_attempts_three_returns)
  have p3: "length (filter (\<lambda>ev. ev = GenerateContent) (snd (analyze_with_gemini backend))) \<le> 3"
    unfolding ana by (rule gemini_attempts_three_calls)
  have p4: "length (filter (\<lambda>ev. ev = GenerateContent)
      (snd (generate_rag_response context model_type ollama backend))) \<le> 3"
    unfolding rag by (rule gemini_attempts_three_calls)
  have p5: "(\<forall>i<3. transient (backend i)) \<longrightarrow>
       (\<exists>e. backend 2 = Raises e \<and>
          analyze_with_gemini backend =
            (Some (''Analysis failed due to quota limit: '' @ e),
             backoff 2 @ [GenerateContent, StError]) \<and>
          generate_rag_response context model_type ollama backend =
            (Some (''Response generation failed due to quota limit: '' @ e),
             backoff 2 @ [GenerateContent, StError]))"
  proof
    assume all: "\<forall>i<3. transient (backend i)"
    from gemini_attempts_three_exhausted [OF all]
    obtain e where e: "backend 2 = Raises e"
      and a: "analyze_with_gemini backend =
            (Some (''Analysis failed due to quota limit: '' @ e),
             backoff 2 @ [GenerateContent, StError])"
      unfolding ana by blast
    from gemini_attempts_three_exhausted [OF all] e
    have "generate_rag_response context model_type ollama backend =
            (Some (''Response generation failed due to quota limit: '' @ e),
             backoff 2 @ [GenerateContent, StError])"
      unfolding rag by auto
    with e a show "\<exists>e. backend 2 = Raises e \<and>
          analyze_with_gemini backend =
            (Some (''Analysis failed due to quota limit: '' @ e),
             backoff 2 @ [GenerateContent, StError]) \<and>
          generate_rag_response context model_type ollama backend =
            (Some (''Response generation failed due to quota limit: '' @ e),
             backoff 2 @ [GenerateContent, StError])"
      by blast
  qed
  have p6: "\<forall>k e. k < 3 \<and> (\<forall>i<k. transient (backend i)) \<and> backend k = Raises e \<and>
        \<not> transient (Raises e) \<longrightarrow>
        analyze_with_gemini backend =
          (Some (''Analysis failed: '' @ e), backoff k @ [GenerateContent]) \<and>
        generate_rag_response context model_type ollama backend =
          (Some (''Response generation failed: '' @ e), backoff k @ [GenerateContent])"
  proof (intro allI impI, elim conjE)
    fix k e
    assume k: "k < 3" and tr: "\<forall>i<k. transient (backend i)" and r: "backend k = Raises e"
      and nt: "\<not> transient (Raises e)"
    from nt r have "\<not> transient (backend k)" by simp
    from gemini_attempts_three_final [OF k tr this] r
    show "analyze_with_gemini backend =
          (Some (''Analysis failed: '' @ e), backoff k @ [GenerateContent]) \<and>
        generate_rag_response context model_type ollama backend =
          (Some (''Response generation failed: '' @ e), backoff k @ [GenerateContent])"
      unfolding ana rag by simp
  qed
  have p7: "\<forall>k t. k < 3 \<and> (\<forall>i<k. transient (backend i)) \<and> backend k = Text t \<longrightarrow>
        analyze_with_gemini backend = (Some t, backoff k @ [GenerateContent]) \<and>
        generate_rag_response context model_type ollama backend =
          (Some t, backoff k @ [GenerateContent])"
  proof (intro allI impI, elim conjE)
    fix k t
    assume k: "k < 3" and tr: "\<forall>i<k. transient (backend i)" and r: "backend k = Text t"
    from r have "\<not> transient (backend k)" by (simp add: transient_def)
    from gemini_attempts_three_final [OF k tr this] r
    show "analyze_with_gemini backend = (Some t, backoff k @ [GenerateContent]) \<and>
        generate_rag_response context model_type ollama backend =
          (Some t, backoff k @ [GenerateContent])"
      unfolding ana rag by simp
  qed
  from p1 p2 p3 p4 p5 p6 p7 show ?thesis by (intro conjI)
qed

theorem gemini_retry_policy_witness:
  "[Docs [''chunk'']] \<noteq> [] \<and> hd [Docs [''chunk'']] \<noteq> Docs [''no related files found''] \<and>
   ''Gemini'' \<noteq> ''OLLAMA'' \<and> transient (Raises ''429 Quota exceeded'') \<and>
   analyze_with_gemini (\<lambda>i. Raises ''429 Quota exceeded'') =
     (Some ''Analysis failed due to quota limit: 429 Quota exceeded'',
      [GenerateContent, StWarning, Sleep 60, GenerateContent, StWarning, Sleep 60,
       GenerateContent, StError]) \<and>
   generate_rag_response [Docs [''chunk'']] ''Gemini'' (Inl ''down'')
       (\<lambda>i. Raises ''429 Quota exceeded'') =
     (Some ''Response generation failed due to quota limit: 429 Quota exceeded'',
      [GenerateContent, StWarning, Sleep 60, GenerateContent, StWarning, Sleep 60,
       GenerateContent, StError])"
proof -
  have h1: "[Docs [''chunk'']] \<noteq> []" by simp
  have h2: "hd [Docs [''chunk'']] \<noteq> Docs [''no related files found'']" by simp
  have h3: "''Gemini'' \<noteq> ''OLLAMA''" by simp
  have t: "transient (Raises ''429 Quota exceeded'')" by code_simp
  then have h4: "\<forall>i<3. transient ((\<lambda>i. Raises ''429 Quota exceeded'') (i::nat))" by simp
  from gemini_retry_policy [OF h1 h2 h3, of "\<lambda>i. Raises ''429 Quota exceeded''" "Inl ''down''"] h4
  have "\<exists>e. (\<lambda>i. Raises ''429 Quota exceeded'') (2::nat) = Raises e \<and>
      analyze_with_gemini (\<lambda>i. Raises ''429 Quota exceeded'') =
        (Some (''Analysis failed due to quota limit: '' @ e),
         backoff 2 @ [GenerateContent, StError]) \<and>
      generate_rag_response [Docs [''chunk'']] ''Gemini'' (Inl ''down'')
          (\<lambda>i. Raises ''429 Quota exceeded'') =
        (Some (''Response generation failed due to quota limit: '' @ e),
         backoff 2 @ [GenerateContent, StError])"
    by blast
  then have "analyze_with_gemini (\<lambda>i. Raises ''429 Quota exceeded'') =
        (Some (''Analysis failed due to quota limit: '' @ ''429 Quota exceeded''),
         backoff 2 @ [GenerateContent, StError]) \<and>
      generate_rag_response [Docs [''chunk'']] ''Gemini'' (Inl ''down'')
          (\<lambda>i. Raises ''429 Quota exceeded'') =
        (Some (''Response generation failed due to quota limit: '' @ ''429 Quota exceeded''),
         backoff 2 @ [GenerateContent, StError])"
    by auto
  with h1 h2 h3 t show ?thesis by (simp add: backoff_simps)
qed
section \<open>Properties of the risk extractor\<close>

lemma py_in_sublist: "py_in sub s \<longleftrightarrow> sublist sub s"
  by (induction s) (simp_all add: sublist_Cons_right)

lemma py_lower_take_prefix: "py_lower (take (length l) s) = l \<longleftrightarrow> prefix l (py_lower s)"
proof
  assume "py_lower (take (length l) s) = l"
  then have "l = take (length l) (py_lower s)" by (simp add: py_lower_def take_map)
  then show "prefix l (py_lower s)" by (metis take_is_prefix)
next
  assume "prefix l (py_lower s)"
  then obtain r where "py_lower s = l @ r" by (auto simp: prefix_def)
  then have "take (length l) (py_lower s) = l" by simp
  then show "py_lower (take (length l) s) = l" by (simp add: py_lower_def take_map)
qed

lemma re_search_ci_alts: "re_search_ci alts s \<longleftrightarrow> (\<exists>a\<in>set alts. re_search_ci [a] s)"
  by (induction s) (auto simp: list_ex_iff)

lemma re_search_ci_Lit: "re_search_ci [Lit l] s \<longleftrightarrow> has_word l s"
proof (induction s)
  case Nil
  then show ?case by (auto simp: has_word_def py_lower_def)
next
  case (Cons c cs)
  have "alt_at (Lit l) (c # cs) \<longleftrightarrow> prefix l (py_lower (c # cs))"
    by (simp only: alt_at.simps py_lower_take_prefix)
  with Cons show ?case
    by (simp add: has_word_def sublist_Cons_right py_lower_def)
qed

lemma list_ex_upt_Suc:
  "list_ex P [0..<Suc (Suc n)] \<longleftrightarrow> P 0 \<or> list_ex (\<lambda>i. P (Suc i)) [0..<Suc n]"
proof -
  have "(\<exists>i<Suc (Suc n). P i) \<longleftrightarrow> P 0 \<or> (\<exists>i<Suc n. P (Suc i))"
    by (subst less_Suc_eq_0_disj) blast
  then show ?thesis
    by (simp only: list_ex_iff set_upt atLeastLessThan_iff Bex_def le0 simp_thms)
qed

lemma re_search_ci_LitB: "re_search_ci [LitB l] s \<longleftrightarrow> ends_word l s"
proof (induction s)
  case Nil
  then show ?case by (simp add: ends_word_def)
next
  case (Cons c cs)
  have "ends_word l (c # cs) \<longleftrightarrow> alt_at (LitB l) (c # cs) \<or> ends_word l cs"
    unfolding ends_word_def length_Cons list_ex_upt_Suc
    by (simp add: drop_drop add.commute del: upt_Suc)
  with Cons show ?case by simp
qed

lemma search_registry:
  "re_search_ci [Lit ''registry'', Lit ''image''] s \<longleftrightarrow>
     has_word ''registry'' s \<or> has_word ''image'' s"
  by (subst re_search_ci_alts) (simp add: re_search_ci_Lit del: re_search_ci.simps)

lemma search_shell:
  "re_search_ci [Lit ''script'', LitB ''sh'', Lit ''bash'', Lit ''command''] s \<longleftrightarrow>
     has_word ''script'' s \<or> ends_word ''sh'' s \<or> has_word ''bash'' s \<or> has_word ''command'' s"
  by (subst re_search_ci_alts)
     (simp add: re_search_ci_Lit re_search_ci_LitB del: re_search_ci.simps)

lemma search_network:
  "re_search_ci [Lit ''network'', Lit ''host'', Lit ''bridge'', Lit ''overlay''] s \<longleftrightarrow>
     has_word ''network'' s \<or> has_word ''host'' s \<or> has_word ''bridge'' s \<or> has_word ''overlay'' s"
  by (subst re_search_ci_alts) (simp add: re_search_ci_Lit del: re_search_ci.simps)

lemma search_gitlab:
  "re_search_ci [Lit ''gitlab'', Lit ''runner'', Lit ''token''] s \<longleftrightarrow>
     has_word ''gitlab'' s \<or> has_word ''runner'' s \<or> has_word ''token'' s"
  by (subst re_search_ci_alts) (simp add: re_search_ci_Lit del: re_search_ci.simps)

lemma name_has_word: "py_in w (py_lower n) \<longleftrightarrow> has_word w n"
  by (simp add: py_in_sublist has_word_def)

text \<open>What one block adds to the list of findings.\<close>

lemma detect_loop_step:
  "detect_loop (block # blocks) cont detected =
     detect_loop blocks cont
       (detected @ (case candidate block of
                      None \<Rightarrow> []
                    | Some f \<Rightarrow> if lacks_vocabulary (risk_name f) cont then [] else [f]))"
proof (cases "candidate block")
  case None
  then show ?thesis
    by (auto simp: candidate_def split: option.splits)
next
  case (Some f)
  then obtain n s r where m: "risk_name_match block = Some n" "severity_match block = Some s"
      "reason_match block = Some r" and f: "f = \<lparr>risk_name = py_strip n, severity = s\<rparr>"
    by (auto simp: candidate_def split: option.splits)
  show ?thesis
    unfolding detect_loop.simps m Some
    by (simp add: f Let_def lacks_vocabulary_def name_has_word search_registry search_shell
          search_network search_gitlab del: re_search_ci.simps py_in.simps)
qed

lemma detect_loop_acc:
  "detect_loop blocks cont detected = detected @ detect_loop blocks cont []"
proof (induction blocks arbitrary: detected)
  case Nil
  then show ?case by simp
next
  case (Cons b bs)
  show ?case
    unfolding detect_loop_step
    by (subst Cons.IH, subst (2) Cons.IH) simp
qed

lemma detect_loop_closed:
  "detect_loop blocks cont [] =
     concat (map (\<lambda>block. case candidate block of
                    None \<Rightarrow> []
                  | Some f \<Rightarrow> if lacks_vocabulary (risk_name f) cont then [] else [f]) blocks)"
proof (induction blocks)
  case Nil
  then show ?case by simp
next
  case (Cons b bs)
  show ?case
    unfolding detect_loop_step
    by (subst detect_loop_acc) (simp add: Cons.IH)
qed

lemma severity_match_values:
  "severity_match block = Some s \<Longrightarrow> s = ''Low'' \<or> s = ''Medium'' \<or> s = ''High''"
  by (induction block) (auto split: if_splits)

lemma candidate_severity:
  "candidate block = Some f \<Longrightarrow>
     severity f = ''Low'' \<or> severity f = ''Medium'' \<or> severity f = ''High''"
  by (auto simp: candidate_def split: option.splits dest: severity_match_values)

lemma detect_loop_severity:
  assumes "f \<in> set (detect_loop blocks cont [])"
  shows "severity f = ''Low'' \<or> severity f = ''Medium'' \<or> severity f = ''High''"
proof -
  from assms obtain b where "candidate b = Some f"
    unfolding detect_loop_closed by (auto split: option.splits if_splits)
  then show ?thesis by (rule candidate_severity)
qed







lemma detect_closed:
  "detect_owasp_risks a c =
     concat (map (\<lambda>block. case candidate block of
                    None \<Rightarrow> []
                  | Some f \<Rightarrow> if lacks_vocabulary (risk_name f) c then [] else [f])
       (risk_blocks a))"
  unfolding detect_owasp_risks_def by (rule detect_loop_closed)

lemma detect_loop_all_kept:
  assumes "\<forall>b\<in>set bs. \<exists>f. candidate b = Some f \<and> \<not> lacks_vocabulary (risk_name f) c"
  shows "map Some (detect_loop bs c []) = map candidate bs"
  using assms unfolding detect_loop_closed
  by (induction bs) auto


lemma candidate_missing_field:
  "risk_name_match b = None \<or> severity_match b = None \<or> reason_match b = None \<Longrightarrow>
     candidate b = None"
  by (auto simp: candidate_def split: option.splits)
section \<open>The fields of a block\<close>













lemma registry_example_blocks:
  "risk_blocks ''### Risk: Insecure Registry Access\<newline>**Severity**: High\<newline>**Reason**: pulls from the registry without login\<newline>**Suggestion**: require a login'' =
     ['' Insecure Registry Access\<newline>**Severity**: High\<newline>**Reason**: pulls from the registry without login\<newline>**Suggestion**: require a login'']"
  by code_simp

lemma registry_example_candidate:
  "candidate '' Insecure Registry Access\<newline>**Severity**: High\<newline>**Reason**: pulls from the registry without login\<newline>**Suggestion**: require a login'' =
     Some \<lparr>risk_name = ''Insecure Registry Access'', severity = ''High''\<rparr>"
  by code_simp

lemma registry_example_name:
  "has_word ''registry'' ''Insecure Registry Access''"
  "\<not> has_word ''shell'' ''Insecure Registry Access''"
  "\<not> has_word ''network'' ''Insecure Registry Access''"
  "\<not> has_word ''gitlab'' ''Insecure Registry Access''"
  by code_simp+

lemma registry_example_lacks:
  "lacks_vocabulary ''Insecure Registry Access'' c \<longleftrightarrow>
     \<not> (has_word ''registry'' c \<or> has_word ''image'' c)"
  unfolding lacks_vocabulary_def by (simp only: registry_example_name simp_thms)

lemma registry_latest_has_word:
  assumes "sublist ''registry:latest'' c"
  shows "has_word ''registry'' c"
proof -
  have low: "py_lower ''registry:latest'' = ''registry:latest''" by code_simp
  have sub: "sublist ''registry'' ''registry:latest''" by code_simp
  from assms have "sublist (py_lower ''registry:latest'') (py_lower c)"
    unfolding py_lower_def by (rule map_mono_sublist)
  then have "sublist ''registry:latest'' (py_lower c)" by (simp only: low)
  with sub have "sublist ''registry'' (py_lower c)" by (rule sublist_order.order_trans)
  then show ?thesis by (simp only: has_word_def)
qed

text \<open>
  C2 (amended). The findings returned are those of the blocks with the three fields, in
  order, without the ones that a keyword rule drops: a rule drops a finding when its name
  contains the keyword and the content has none of the words of the rule, letters
  compared without regard to case. The words are \<open>registry\<close>, \<open>image\<close> for \<open>registry\<close>;
  \<open>script\<close>, \<open>bash\<close>, \<open>command\<close> and \<open>sh\<close> at the end of a word for \<open>shell\<close> (the word
  \<open>shell\<close> itself is not one of them); \<open>network\<close>, \<open>host\<close>, \<open>bridge\<close>, \<open>overlay\<close> for
  \<open>network\<close>; \<open>gitlab\<close>, \<open>runner\<close>, \<open>token\<close> for \<open>gitlab\<close>. A block named
  \<open>Insecure Registry Access\<close> is dropped for a content without \<open>registry\<close> and \<open>image\<close>
  and kept for a content that contains \<open>registry:latest\<close>.
\<close>

theorem corroboration_filter:
  "detect_owasp_risks a c =
     concat (map (\<lambda>block. case candidate block of
                    None \<Rightarrow> []
                  | Some f \<Rightarrow> if lacks_vocabulary (risk_name f) c then [] else [f])
       (risk_blocks a)) \<and>
   (\<not> has_word ''registry'' c \<and> \<not> has_word ''image'' c \<longrightarrow>
      detect_owasp_risks ''### Risk: Insecure Registry Access\<newline>**Severity**: High\<newline>**Reason**: pulls from the registry without login\<newline>**Suggestion**: require a login'' c = []) \<and>
   (sublist ''registry:latest'' c \<longrightarrow>
      detect_owasp_risks ''### Risk: Insecure Registry Access\<newline>**Severity**: High\<newline>**Reason**: pulls from the registry without login\<newline>**Suggestion**: require a login'' c =
        [\<lparr>risk_name = ''Insecure Registry Access'', severity = ''High''\<rparr>])"
proof (intro conjI impI)
  show "detect_owasp_risks a c =
     concat (map (\<lambda>block. case candidate block of
                    None \<Rightarrow> []
                  | Some f \<Rightarrow> if lacks_vocabulary (risk_name f) c then [] else [f])
       (risk_blocks a))"
    by (rule detect_closed)
next
  assume "\<not> has_word ''registry'' c \<and> \<not> has_word ''image'' c"
  then have "lacks_vocabulary ''Insecure Registry Access'' c"
    by (simp only: registry_example_lacks simp_thms)
  then show "detect_owasp_risks ''### Risk: Insecure Registry Access\<newline>**Severity**: High\<newline>**Reason**: pulls from the registry without login\<newline>**Suggestion**: require a login'' c = []"
    unfolding detect_closed registry_example_blocks
    by (simp add: registry_example_candidate)
next
  assume "sublist ''registry:latest'' c"
  then have "has_word ''registry'' c" by (rule registry_latest_has_word)
  then have "\<not> lacks_vocabulary ''Insecure Registry Access'' c"
    by (simp only: registry_example_lacks simp_thms)
  then show "detect_owasp_risks ''### Risk: Insecure Registry Access\<newline>**Severity**: High\<newline>**Reason**: pulls from the registry without login\<newline>**Suggestion**: require a login'' c =
        [\<lparr>risk_name = ''Insecure Registry Access'', severity = ''High''\<rparr>]"
    unfolding detect_closed registry_example_blocks
    by (simp add: registry_example_candidate)
qed

theorem corroboration_filter_witness:
  "sublist ''registry:latest'' ''image: registry:latest'' \<and>
   detect_owasp_risks ''### Risk: Insecure Registry Access\<newline>**Severity**: High\<newline>**Reason**: pulls from the registry without login\<newline>**Suggestion**: require a login''
     ''image: registry:latest'' =
        [\<lparr>risk_name = ''Insecure Registry Access'', severity = ''High''\<rparr>] \<and>
   \<not> has_word ''registry'' ''build: make all'' \<and> \<not> has_word ''image'' ''build: make all'' \<and>
   detect_owasp_risks ''### Risk: Insecure Registry Access\<newline>**Severity**: High\<newline>**Reason**: pulls from the registry without login\<newline>**Suggestion**: require a login''
     ''build: make all'' = []"
proof -
  have h1: "sublist ''registry:latest'' ''image: registry:latest''" by code_simp
  have h2: "\<not> has_word ''registry'' ''build: make all'' \<and> \<not> has_word ''image'' ''build: make all''"
    by code_simp
  from corroboration_filter [of "''x''" "''image: registry:latest''"] h1
    corroboration_filter [of "''x''" "''build: make all''"] h2
  show ?thesis by blast
qed

text \<open>
  The claim C2 as stated fails for the rule \<open>shell\<close>: the content below contains the word
  \<open>shell\<close>, and the finding is dropped all the same.
\<close>

theorem corroboration_shell_counterexample:
  "detect_owasp_risks
     ''### Risk: Shell Injection\<newline>**Severity**: High\<newline>**Reason**: spawns a shell\<newline>**Suggestion**: avoid it''
     ''run: open a shell'' = []"
  by code_simp

lemma detect_loop_append:
  "detect_loop (xs @ ys) c [] = detect_loop xs c [] @ detect_loop ys c []"
  unfolding detect_loop_closed by simp



section \<open>Properties of the risk counts\<close>

lemma counts_ok_empty: "counts_ok Map.empty"
  by (simp add: counts_ok_def)

lemma count_risks_ok:
  assumes "counts_ok rc"
    and "\<forall>f\<in>set fs. severity f = ''Low'' \<or> severity f = ''Medium'' \<or> severity f = ''High''"
  shows "snd (count_risks fs rc) = None \<and> counts_ok (fst (count_risks fs rc))"
  using assms
proof (induction fs arbitrary: rc)
  case Nil
  then show ?case by simp
next
  case (Cons f fs)
  define rc1 where "rc1 = (if rc (risk_name f) = None
      then rc(risk_name f \<mapsto> [''Low'' \<mapsto> 0, ''Medium'' \<mapsto> 0, ''High'' \<mapsto> 0]) else rc)"
  from Cons.prems(1) have ok1: "counts_ok rc1"
    by (auto simp: counts_ok_def rc1_def)
  obtain counts where c: "rc1 (risk_name f) = Some counts"
    by (cases "rc (risk_name f)") (auto simp: rc1_def)
  from Cons.prems(2) have sev: "severity f = ''Low'' \<or> severity f = ''Medium'' \<or> severity f = ''High''"
    by simp
  from ok1 c have "counts ''Low'' \<noteq> None \<and> counts ''Medium'' \<noteq> None \<and> counts ''High'' \<noteq> None"
    unfolding counts_ok_def by blast
  with sev have "counts (severity f) \<noteq> None" by auto
  then obtain n where n: "counts (severity f) = Some n" by blast
  define rc2 where "rc2 = rc1(risk_name f \<mapsto> counts(severity f \<mapsto> n + 1))"
  from ok1 c have ok2: "counts_ok rc2"
    by (auto simp: counts_ok_def rc2_def)
  have step: "count_risks (f # fs) rc = count_risks fs rc2"
    by (simp add: rc1_def [symmetric] c n rc2_def Let_def)
  from Cons.prems(2) have "\<forall>f\<in>set fs. severity f = ''Low'' \<or> severity f = ''Medium'' \<or> severity f = ''High''"
    by simp
  from Cons.IH [OF ok2 this] show ?case by (simp only: step)
qed

lemma load_rows_append:
  "load_rows (rows @ [row]) rc =
     (case load_rows rows rc of Inl e \<Rightarrow> Inl e | Inr rc' \<Rightarrow> load_rows [row] rc')"
  by (induction rows arbitrary: rc) (auto split: prod.splits option.splits)

lemma load_rows_no_risks:
  "\<forall>row\<in>set rows. risks row = [] \<Longrightarrow> load_rows rows rc = Inr rc"
  by (induction rows) simp_all

lemma load_rows_ok:
  assumes "counts_ok rc"
    and "\<forall>row\<in>set rows. \<forall>f\<in>set (risks row).
           severity f = ''Low'' \<or> severity f = ''Medium'' \<or> severity f = ''High''"
  shows "\<exists>rc'. load_rows rows rc = Inr rc' \<and> counts_ok rc'"
  using assms
proof (induction rows arbitrary: rc)
  case Nil
  then show ?case by simp
next
  case (Cons row rows)
  from Cons.prems have "\<forall>f\<in>set (risks row).
      severity f = ''Low'' \<or> severity f = ''Medium'' \<or> severity f = ''High''" by simp
  from count_risks_ok [OF Cons.prems(1) this]
  obtain rc1 where c: "count_risks (risks row) rc = (rc1, None)" and ok: "counts_ok rc1"
    by (cases "count_risks (risks row) rc") auto
  from Cons.prems(2) have "\<forall>row\<in>set rows. \<forall>f\<in>set (risks row).
      severity f = ''Low'' \<or> severity f = ''Medium'' \<or> severity f = ''High''" by simp
  from Cons.IH [OF ok this] show ?case by (simp add: c)
qed

lemma detect_severity:
  "f \<in> set (detect_owasp_risks a c) \<Longrightarrow>
     severity f = ''Low'' \<or> severity f = ''Medium'' \<or> severity f = ''High''"
  unfolding detect_owasp_risks_def by (rule detect_loop_severity)

text \<open>
  C10. Every finding of \<open>detect_owasp_risks\<close> has the severity \<open>Low\<close>, \<open>Medium\<close> or
  \<open>High\<close>. So the count of the findings of a file, from an initialised dictionary (the
  empty one at the start of a scan), ends without a \<open>KeyError\<close> and leaves the dictionary
  initialised, and the replay of a table whose rows hold findings of
  \<open>detect_owasp_risks\<close> returns a dictionary.
\<close>

theorem severity_keys_present:
  "(\<forall>f\<in>set (detect_owasp_risks a c).
      severity f = ''Low'' \<or> severity f = ''Medium'' \<or> severity f = ''High'') \<and>
   (counts_ok rc \<longrightarrow>
      snd (count_risks (detect_owasp_risks a c) rc) = None \<and>
      counts_ok (fst (count_risks (detect_owasp_risks a c) rc))) \<and>
   ((\<forall>row\<in>set table. \<exists>a' c'. risks row = detect_owasp_risks a' c') \<longrightarrow>
      (\<exists>rc'. load_risk_count_from_db table = Inr rc' \<and> counts_ok rc'))"
proof (intro conjI impI)
  show sev: "\<forall>f\<in>set (detect_owasp_risks a c).
      severity f = ''Low'' \<or> severity f = ''Medium'' \<or> severity f = ''High''"
    using detect_severity by blast
  assume ok: "counts_ok rc"
  from count_risks_ok [OF ok sev]
  show "snd (count_risks (detect_owasp_risks a c) rc) = None"
    and "counts_ok (fst (count_risks (detect_owasp_risks a c) rc))" by simp_all
next
  assume "\<forall>row\<in>set table. \<exists>a' c'. risks row = detect_owasp_risks a' c'"
  then have "\<forall>row\<in>set table. \<forall>f\<in>set (risks row).
      severity f = ''Low'' \<or> severity f = ''Medium'' \<or> severity f = ''High''"
    using detect_severity by metis
  from load_rows_ok [OF counts_ok_empty this]
  show "\<exists>rc'. load_risk_count_from_db table = Inr rc' \<and> counts_ok rc'"
    by (simp only: load_risk_count_from_db_def)
qed

theorem severity_keys_present_witness:
  "counts_ok Map.empty \<and>
   snd (count_risks (detect_owasp_risks
      ''### Risk: Leaked Key\<newline>**Severity**: Medium\<newline>**Reason**: key in file\<newline>'' ''key: abc'')
      Map.empty) = None"
  using severity_keys_present [of
      "''### Risk: Leaked Key\<newline>**Severity**: Medium\<newline>**Reason**: key in file\<newline>''"
      "''key: abc''" Map.empty "[]"] counts_ok_empty
  by blast
section \<open>Properties of the stores and of the scan\<close>

lemma chunk_text_default: "\<exists>chunks. chunk_text s 1000 200 = Some chunks"
  using chunk_loop_terminates [of 200 1000 s 0 "[]"] by (simp add: chunk_text_def)

lemma store_in_vector_db_result:
  "\<exists>entries. store_in_vector_db path s a func ok coll =
       Some (if ok then (filter (\<lambda>e. \<not> prefix (normalize_path path) (ve_id e)) coll @ entries, None)
             else (filter (\<lambda>e. \<not> prefix (normalize_path path) (ve_id e)) coll,
                   Some VectorStoreError)) \<and>
     (\<forall>e\<in>set entries. md_file_path (ve_metadata e) = path \<and>
        md_risks (ve_metadata e) = func a s \<and> prefix (normalize_path path) (ve_id e))"
proof -
  from chunk_text_default obtain chunks where c: "chunk_text s 1000 200 = Some chunks" by blast
  show ?thesis
  proof (cases ok)
    case True
    then show ?thesis
      unfolding store_in_vector_db_def Let_def c option.case
      by (auto simp: in_set_enumerate_eq)
  next
    case False
    then show ?thesis
      unfolding store_in_vector_db_def Let_def c option.case
      by (intro exI [of _ "[]"]) simp
  qed
qed

lemma sql_like_percent: "sql_like ''%'' s"
  by (induction s) simp_all

lemma sql_like_skip: "sql_like ps s \<Longrightarrow> sql_like (CHR ''%'' # ps) s"
  by (cases s) simp_all

lemma sql_like_prefix: "prefix d p \<Longrightarrow> sql_like (d @ ''%'') p"
proof (induction d arbitrary: p)
  case Nil
  show ?case using sql_like_percent by simp
next
  case (Cons x d)
  then obtain p' where p: "p = x # p'" and pre: "prefix d p'"
    by (cases p) auto
  from Cons.IH [OF pre] have ih: "sql_like (d @ ''%'') p'" .
  show ?case
  proof (cases "x = CHR ''%''")
    case True
    from ih have "sql_like (CHR ''%'' # d @ ''%'') p'" by (rule sql_like_skip)
    with True show ?thesis by (simp add: p)
  next
    case False
    with ih show ?thesis by (simp add: p)
  qed
qed

lemma clean_previous_data_prefix:
  "row \<in> set (clean_previous_data directory table) \<Longrightarrow> \<not> prefix directory (file_path row)"
  unfolding clean_previous_data_def using sql_like_prefix by auto

lemma rows_of_cases:
  "rows_of f = [] \<and> \<not> persisted f \<or>
   (\<exists>s. fe_content f = Some s \<and> persisted f \<and>
      rows_of f = [\<lparr>file_path = fe_path f, content = s,
                     risks = detect_owasp_risks (fe_analysis f) s, analysis = fe_analysis f\<rparr>])"
  by (cases "fe_content f") (auto simp: rows_of_def persisted_def)

lemma scan_file_skipped:
  assumes "\<not> persisted f"
  shows "scan_file f st = Some st"
  using assms
  by (cases "fe_content f") (auto simp: scan_file_def persisted_def py_in_sublist)

lemma scan_file_persisted:
  assumes "persisted f" and "fe_content f = Some s" and "counts_ok (risk_count st)"
  shows "\<exists>st' entries.
     scan_file f st = Some st' \<and>
     scan_table st' = scan_table st @
       [\<lparr>file_path = fe_path f, content = s,
         risks = detect_owasp_risks (fe_analysis f) s, analysis = fe_analysis f\<rparr>] \<and>
     count_risks (detect_owasp_risks (fe_analysis f) s) (risk_count st) = (risk_count st', None) \<and>
     counts_ok (risk_count st') \<and>
     vectors st' = filter (\<lambda>e. \<not> prefix (normalize_path (fe_path f)) (ve_id e)) (vectors st) @ entries \<and>
     (\<forall>e\<in>set entries. md_file_path (ve_metadata e) = fe_path f \<and>
        md_risks (ve_metadata e) = detect_owasp_risks (fe_analysis f) s \<and>
        prefix (normalize_path (fe_path f)) (ve_id e))"
proof -
  let ?d = "detect_owasp_risks (fe_analysis f) s"
  from assms(1,2) have guard: "s \<noteq> []" "\<not> py_in ''Analysis failed'' (fe_analysis f)"
      "\<not> py_in ''No vulnerabilities detected'' (fe_analysis f)"
    by (simp_all add: persisted_def py_in_sublist)
  have "\<forall>x\<in>set ?d. severity x = ''Low'' \<or> severity x = ''Medium'' \<or> severity x = ''High''"
    using detect_severity by blast
  from count_risks_ok [OF assms(3) this]
  obtain rc where rc: "count_risks ?d (risk_count st) = (rc, None)" and ok: "counts_ok rc"
    by (cases "count_risks ?d (risk_count st)") auto
  from store_in_vector_db_result [of "fe_path f" s "fe_analysis f" detect_owasp_risks
      "fe_add_ok f" "vectors st"]
  obtain entries where
    sv: "store_in_vector_db (fe_path f) s (fe_analysis f) detect_owasp_risks (fe_add_ok f) (vectors st) =
       Some (if fe_add_ok f
             then (filter (\<lambda>e. \<not> prefix (normalize_path (fe_path f)) (ve_id e)) (vectors st) @ entries, None)
             else (filter (\<lambda>e. \<not> prefix (normalize_path (fe_path f)) (ve_id e)) (vectors st),
                   Some VectorStoreError))"
    and en: "\<forall>e\<in>set entries. md_file_path (ve_metadata e) = fe_path f \<and>
        md_risks (ve_metadata e) = ?d \<and> prefix (normalize_path (fe_path f)) (ve_id e)"
    by blast
  show ?thesis
  proof (cases "fe_add_ok f")
    case True
    with sv rc guard assms(2) ok en show ?thesis
      by (intro exI [of _ "st\<lparr>results := results st @
              [\<lparr>sr_file_path = fe_path f, sr_risks = ?d, sr_analysis = fe_analysis f\<rparr>],
            risk_count := rc,
            scan_table := store_in_database (fe_path f) s ?d (fe_analysis f) (scan_table st),
            vectors := filter (\<lambda>e. \<not> prefix (normalize_path (fe_path f)) (ve_id e)) (vectors st) @ entries\<rparr>"]
          exI [of _ entries])
        (simp add: scan_file_def Let_def store_in_database_def)
  next
    case False
    with sv rc guard assms(2) ok show ?thesis
      by (intro exI [of _ "st\<lparr>risk_count := rc,
            scan_table := store_in_database (fe_path f) s ?d (fe_analysis f) (scan_table st),
            vectors := filter (\<lambda>e. \<not> prefix (normalize_path (fe_path f)) (ve_id e)) (vectors st)\<rparr>"]
          exI [of _ "[]"])
        (simp add: scan_file_def Let_def store_in_database_def)
  qed
qed

lemma scan_directory_loop:
  "scan_directory directory files table coll =
     scan_files files \<lparr>results = [], risk_count = Map.empty,
       scan_table = clean_previous_data directory table, vectors = coll\<rparr>"
  by (simp add: scan_directory_def Let_def)

lemma persisted_content: "persisted f \<Longrightarrow> \<exists>s. fe_content f = Some s"
  by (cases "fe_content f") (simp_all add: persisted_def)

lemma rows_of_persisted:
  "persisted f \<Longrightarrow> fe_content f = Some s \<Longrightarrow>
     rows_of f = [\<lparr>file_path = fe_path f, content = s,
                    risks = detect_owasp_risks (fe_analysis f) s, analysis = fe_analysis f\<rparr>]"
  by (simp add: rows_of_def)

lemma rows_of_skipped: "\<not> persisted f \<Longrightarrow> rows_of f = []"
  by (cases "fe_content f") (simp_all add: rows_of_def)

lemma rows_of_path: "row \<in> set (rows_of f) \<Longrightarrow> file_path row = fe_path f"
  by (cases "fe_content f") (auto simp: rows_of_def split: if_splits)

lemma scan_files_table:
  assumes "counts_ok (risk_count st)"
  shows "\<exists>st'. scan_files fs st = Some st' \<and>
     scan_table st' = scan_table st @ concat (map rows_of fs) \<and> counts_ok (risk_count st')"
  using assms
proof (induction fs arbitrary: st)
  case Nil
  then show ?case by simp
next
  case (Cons f fs)
  show ?case
  proof (cases "persisted f")
    case False
    from Cons.IH [OF Cons.prems] scan_file_skipped [OF False] rows_of_skipped [OF False]
    show ?thesis by simp
  next
    case True
    then obtain s where s: "fe_content f = Some s" using persisted_content by blast
    from scan_file_persisted [OF True s Cons.prems]
    obtain st1 where st1: "scan_file f st = Some st1"
      and tb: "scan_table st1 = scan_table st @ rows_of f"
      and ok: "counts_ok (risk_count st1)"
      unfolding rows_of_persisted [OF True s] by blast
    from Cons.IH [OF ok] st1 tb show ?thesis by simp
  qed
qed

lemma scan_files_replay:
  assumes "counts_ok (risk_count st)"
    and "load_rows (scan_table st) Map.empty = Inr (risk_count st)"
  shows "\<exists>st'. scan_files fs st = Some st' \<and>
     load_rows (scan_table st') Map.empty = Inr (risk_count st')"
  using assms
proof (induction fs arbitrary: st)
  case Nil
  then show ?case by simp
next
  case (Cons f fs)
  show ?case
  proof (cases "persisted f")
    case False
    from Cons.IH [OF Cons.prems] scan_file_skipped [OF False]
    show ?thesis by simp
  next
    case True
    then obtain s where s: "fe_content f = Some s" using persisted_content by blast
    from scan_file_persisted [OF True s Cons.prems(1)]
    obtain st1 where st1: "scan_file f st = Some st1"
      and tb: "scan_table st1 = scan_table st @
         [\<lparr>file_path = fe_path f, content = s,
           risks = detect_owasp_risks (fe_analysis f) s, analysis = fe_analysis f\<rparr>]"
      and cr: "count_risks (detect_owasp_risks (fe_analysis f) s) (risk_count st) =
         (risk_count st1, None)"
      and ok: "counts_ok (risk_count st1)"
      by blast
    have "load_rows (scan_table st1) Map.empty = Inr (risk_count st1)"
      unfolding tb load_rows_append Cons.prems(2) by (simp add: cr)
    from Cons.IH [OF ok this] st1 show ?thesis by simp
  qed
qed




lemma rows_of_length: "length (rows_of f) = (if persisted f then 1 else 0)"
  by (cases "fe_content f") (simp_all add: rows_of_def persisted_def)

lemma rows_of_other_path:
  "p \<notin> fe_path ` set fs \<Longrightarrow> filter (\<lambda>row. file_path row = p) (concat (map rows_of fs)) = []"
  by (induction fs) (auto simp: filter_empty_conv dest: rows_of_path)

lemma rows_of_own_path: "filter (\<lambda>row. file_path row = fe_path f) (rows_of f) = rows_of f"
  by (auto simp: filter_id_conv dest: rows_of_path)

lemma rows_of_count:
  assumes "distinct (map fe_path fs)" and "f \<in> set fs"
  shows "length (filter (\<lambda>row. file_path row = fe_path f) (concat (map rows_of fs))) =
     (if persisted f then 1 else 0)"
  using assms
proof (induction fs)
  case Nil
  then show ?case by simp
next
  case (Cons g fs)
  from Cons.prems(1) have dist: "distinct (map fe_path fs)" and fresh: "fe_path g \<notin> fe_path ` set fs"
    by simp_all
  show ?case
  proof (cases "f \<in> set fs")
    case True
    with fresh have "fe_path g \<noteq> fe_path f" by auto
    then have "filter (\<lambda>row. file_path row = fe_path f) (rows_of g) = []"
      by (auto simp: filter_empty_conv dest: rows_of_path)
    with Cons.IH [OF dist True] show ?thesis by simp
  next
    case False
    with Cons.prems(2) have g: "g = f" by simp
    from fresh have "filter (\<lambda>row. file_path row = fe_path f) (concat (map rows_of fs)) = []"
      unfolding g by (rule rows_of_other_path)
    then show ?thesis by (simp add: g rows_of_own_path rows_of_length)
  qed
qed

text \<open>
  C6 (amended). \<open>scan_directory\<close> runs the invalidation before the loop over the files,
  and the invalidation leaves no row whose path starts with the directory. After two
  scans of a directory, whose files \<open>os.walk\<close> lists with paths that start with the
  directory, the rows with such a path are those written by the second scan, and nothing
  of the first: one row for each file of the second scan that is persisted (content read
  and not empty, analysis neither failed nor without vulnerabilities) and no row for the
  other files.
\<close>

theorem directory_invalidation:
  assumes "\<forall>f\<in>set second_files. prefix directory (fe_path f)"
  shows "scan_directory directory first_files table coll =
      scan_files first_files \<lparr>results = [], risk_count = Map.empty,
        scan_table = clean_previous_data directory table, vectors = coll\<rparr> \<and>
    (\<forall>row\<in>set (clean_previous_data directory table). \<not> prefix directory (file_path row)) \<and>
    (\<exists>st1 st2.
       scan_directory directory first_files table coll = Some st1 \<and>
       scan_directory directory second_files (scan_table st1) (vectors st1) = Some st2 \<and>
       filter (\<lambda>row. prefix directory (file_path row)) (scan_table st2) =
         concat (map rows_of second_files) \<and>
       (distinct (map fe_path second_files) \<longrightarrow>
          (\<forall>f\<in>set second_files.
             length (filter (\<lambda>row. file_path row = fe_path f) (scan_table st2)) =
               (if persisted f then 1 else 0))))"
proof -
  have p1: "\<forall>row\<in>set (clean_previous_data directory table). \<not> prefix directory (file_path row)"
    using clean_previous_data_prefix by blast
  from scan_files_table [of "\<lparr>results = [], risk_count = Map.empty,
       scan_table = clean_previous_data directory table, vectors = coll\<rparr>" first_files]
  obtain st1 where st1: "scan_directory directory first_files table coll = Some st1"
    unfolding scan_directory_loop by (auto simp: counts_ok_empty)
  let ?cleaned = "clean_previous_data directory (scan_table st1)"
  from scan_files_table [of "\<lparr>results = [], risk_count = Map.empty,
       scan_table = ?cleaned, vectors = vectors st1\<rparr>" second_files]
  obtain st2 where st2: "scan_directory directory second_files (scan_table st1) (vectors st1) = Some st2"
    and tb: "scan_table st2 = ?cleaned @ concat (map rows_of second_files)"
    unfolding scan_directory_loop by (auto simp: counts_ok_empty)
  have old: "filter (\<lambda>row. prefix directory (file_path row)) ?cleaned = []"
    using clean_previous_data_prefix by (auto simp: filter_empty_conv)
  have new: "filter (\<lambda>row. prefix directory (file_path row)) (concat (map rows_of second_files)) =
      concat (map rows_of second_files)"
    using assms by (auto simp: filter_id_conv dest: rows_of_path)
  have p3: "filter (\<lambda>row. prefix directory (file_path row)) (scan_table st2) =
      concat (map rows_of second_files)"
    unfolding tb by (simp only: filter_append old new append_Nil)
  have p4: "distinct (map fe_path second_files) \<longrightarrow>
      (\<forall>f\<in>set second_files.
         length (filter (\<lambda>row. file_path row = fe_path f) (scan_table st2)) =
           (if persisted f then 1 else 0))"
  proof (intro impI ballI)
    fix f
    assume dist: "distinct (map fe_path second_files)" and f: "f \<in> set second_files"
    from assms f have pre: "prefix directory (fe_path f)" by blast
    have "filter (\<lambda>row. file_path row = fe_path f) ?cleaned = []"
      unfolding filter_empty_conv using clean_previous_data_prefix pre by metis
    with rows_of_count [OF dist f]
    show "length (filter (\<lambda>row. file_path row = fe_path f) (scan_table st2)) =
        (if persisted f then 1 else 0)"
      unfolding tb by simp
  qed
  have p0: "scan_directory directory first_files table coll =
      scan_files first_files \<lparr>results = [], risk_count = Map.empty,
        scan_table = clean_previous_data directory table, vectors = coll\<rparr>"
    by (rule scan_directory_loop)
  from st1 st2 p3 p4 have "\<exists>st1 st2.
       scan_directory directory first_files table coll = Some st1 \<and>
       scan_directory directory second_files (scan_table st1) (vectors st1) = Some st2 \<and>
       filter (\<lambda>row. prefix directory (file_path row)) (scan_table st2) =
         concat (map rows_of second_files) \<and>
       (distinct (map fe_path second_files) \<longrightarrow>
          (\<forall>f\<in>set second_files.
             length (filter (\<lambda>row. file_path row = fe_path f) (scan_table st2)) =
               (if persisted f then 1 else 0)))"
    by blast
  with p0 p1 show ?thesis by (intro conjI)
qed

text \<open>
  C8 (amended). When the rows that the invalidation leaves in the table hold no findings
  (as in an empty table), \<open>scan_directory\<close> returns, and the risk counts it returns are
  the ones that \<open>load_risk_count_from_db\<close> computes from the table after the scan.
\<close>

theorem risk_count_replay:
  assumes "\<forall>row\<in>set (clean_previous_data directory table). risks row = []"
  shows "\<exists>st. scan_directory directory files table coll = Some st \<and>
     load_risk_count_from_db (scan_table st) = Inr (risk_count st)"
proof -
  let ?init = "\<lparr>results = [], risk_count = Map.empty,
       scan_table = clean_previous_data directory table, vectors = coll\<rparr>"
  have ok: "counts_ok (risk_count ?init)" by (simp add: counts_ok_empty)
  from assms have "load_rows (scan_table ?init) Map.empty = Inr (risk_count ?init)"
    by (simp add: load_rows_no_risks)
  from scan_files_replay [OF ok this, of files] show ?thesis
    unfolding scan_directory_loop load_risk_count_from_db_def .
qed


theorem directory_invalidation_witness:
  "prefix ''d'' (fe_path \<lparr>fe_path = ''d/a.yml'', fe_content = Some ''key: abc'',
        fe_analysis = ''### Risk: Leaked Key\<newline>**Severity**: High\<newline>**Reason**: key in file\<newline>'',
        fe_add_ok = True\<rparr>) \<and>
   (\<exists>st1 st2.
      scan_directory ''d'' [\<lparr>fe_path = ''d/a.yml'', fe_content = Some ''key: abc'',
        fe_analysis = ''### Risk: Leaked Key\<newline>**Severity**: High\<newline>**Reason**: key in file\<newline>'',
        fe_add_ok = True\<rparr>] [] [] = Some st1 \<and>
      scan_directory ''d'' [\<lparr>fe_path = ''d/a.yml'', fe_content = Some ''key: abc'',
        fe_analysis = ''### Risk: Leaked Key\<newline>**Severity**: High\<newline>**Reason**: key in file\<newline>'',
        fe_add_ok = True\<rparr>] (scan_table st1) (vectors st1) = Some st2 \<and>
      filter (\<lambda>row. prefix ''d'' (file_path row)) (scan_table st2) =
        concat (map rows_of [\<lparr>fe_path = ''d/a.yml'', fe_content = Some ''key: abc'',
        fe_analysis = ''### Risk: Leaked Key\<newline>**Severity**: High\<newline>**Reason**: key in file\<newline>'',
        fe_add_ok = True\<rparr>]))"
proof -
  have hp: "prefix ''d'' (fe_path \<lparr>fe_path = ''d/a.yml'', fe_content = Some ''key: abc'',
        fe_analysis = ''### Risk: Leaked Key\<newline>**Severity**: High\<newline>**Reason**: key in file\<newline>'',
        fe_add_ok = True\<rparr>)" by simp
  then have h: "\<forall>f\<in>set [\<lparr>fe_path = ''d/a.yml'', fe_content = Some ''key: abc'',
        fe_analysis = ''### Risk: Leaked Key\<newline>**Severity**: High\<newline>**Reason**: key in file\<newline>'',
        fe_add_ok = True\<rparr>]. prefix ''d'' (fe_path f)" by simp
  from directory_invalidation [OF h, where table = "[]" and coll = "[]" and
      first_files = "[\<lparr>fe_path = ''d/a.yml'', fe_content = Some ''key: abc'',
        fe_analysis = ''### Risk: Leaked Key\<newline>**Severity**: High\<newline>**Reason**: key in file\<newline>'',
        fe_add_ok = True\<rparr>]"]
  have "\<exists>st1 st2.
      scan_directory ''d'' [\<lparr>fe_path = ''d/a.yml'', fe_content = Some ''key: abc'',
        fe_analysis = ''### Risk: Leaked Key\<newline>**Severity**: High\<newline>**Reason**: key in file\<newline>'',
        fe_add_ok = True\<rparr>] [] [] = Some st1 \<and>
      scan_directory ''d'' [\<lparr>fe_path = ''d/a.yml'', fe_content = Some ''key: abc'',
        fe_analysis = ''### Risk: Leaked Key\<newline>**Severity**: High\<newline>**Reason**: key in file\<newline>'',
        fe_add_ok = True\<rparr>] (scan_table st1) (vectors st1) = Some st2 \<and>
      filter (\<lambda>row. prefix ''d'' (file_path row)) (scan_table st2) =
        concat (map rows_of [\<lparr>fe_path = ''d/a.yml'', fe_content = Some ''key: abc'',
        fe_analysis = ''### Risk: Leaked Key\<newline>**Severity**: High\<newline>**Reason**: key in file\<newline>'',
        fe_add_ok = True\<rparr>])"
    by blast
  with hp show ?thesis by (intro conjI)
qed

text \<open>
  The claim C6 as stated fails for a file that the scan skips: the file below is present in
  both scans of the directory, and the table holds no row for it afterwards (each of the
  two scans starts from the empty stores and leaves them empty).
\<close>

theorem directory_invalidation_counterexample:
  "map_option scan_table (scan_directory ''d'' [\<lparr>fe_path = ''d/a.yml'', fe_content = Some ''key: abc'',
        fe_analysis = ''No vulnerabilities detected in the provided code.'',
        fe_add_ok = True\<rparr>] [] []) = Some [] \<and>
   map_option vectors (scan_directory ''d'' [\<lparr>fe_path = ''d/a.yml'', fe_content = Some ''key: abc'',
        fe_analysis = ''No vulnerabilities detected in the provided code.'',
        fe_add_ok = True\<rparr>] [] []) = Some []"
  by code_simp

theorem risk_count_replay_witness:
  "clean_previous_data ''d'' [] = [] \<and>
   (\<exists>st. scan_directory ''d'' [\<lparr>fe_path = ''d/a.yml'', fe_content = Some ''key: abc'',
        fe_analysis = ''### Risk: Leaked Key\<newline>**Severity**: High\<newline>**Reason**: key in file\<newline>'',
        fe_add_ok = True\<rparr>] [] [] = Some st \<and>
      load_risk_count_from_db (scan_table st) = Inr (risk_count st))"
proof -
  have hc: "clean_previous_data ''d'' [] = []" by (simp add: clean_previous_data_def)
  then have h: "\<forall>row\<in>set (clean_previous_data ''d'' []). risks row = []" by simp
  from risk_count_replay [OF h, of "[\<lparr>fe_path = ''d/a.yml'', fe_content = Some ''key: abc'',
        fe_analysis = ''### Risk: Leaked Key\<newline>**Severity**: High\<newline>**Reason**: key in file\<newline>'',
        fe_add_ok = True\<rparr>]" "[]"] hc
  show ?thesis by (intro conjI)
qed

text \<open>
  The claim C8 as stated fails when the table holds a row of another directory: the scan
  of the directory \<open>d\<close> (here without files) keeps that row and returns empty risk counts,
  and the replay of the table counts the finding of the row.
\<close>

theorem risk_count_replay_counterexample:
  "map_option scan_table (scan_directory ''d'' [] [\<lparr>file_path = ''other/b.yml'', content = ''key: abc'',
        risks = [\<lparr>risk_name = ''Leaked Key'', severity = ''High''\<rparr>], analysis = ''report''\<rparr>] []) = Some [\<lparr>file_path = ''other/b.yml'', content = ''key: abc'',
        risks = [\<lparr>risk_name = ''Leaked Key'', severity = ''High''\<rparr>], analysis = ''report''\<rparr>] \<and>
   map_option (dom \<circ> risk_count) (scan_directory ''d'' [] [\<lparr>file_path = ''other/b.yml'', content = ''key: abc'',
        risks = [\<lparr>risk_name = ''Leaked Key'', severity = ''High''\<rparr>], analysis = ''report''\<rparr>] []) = Some {} \<and>
   map_sum id dom (load_risk_count_from_db [\<lparr>file_path = ''other/b.yml'', content = ''key: abc'',
        risks = [\<lparr>risk_name = ''Leaked Key'', severity = ''High''\<rparr>], analysis = ''report''\<rparr>]) = Inr {''Leaked Key''}"
  by (simp add: scan_directory_def clean_previous_data_def sql_lower_def
        load_risk_count_from_db_def)

section \<open>Properties of the query path\<close>











end
